theory Spec2Isabelle
  imports Main "HOL-Library.Word" "HOL-Library.Monad_Syntax" "HOL-Library.List_Lexorder"
begin

unbundle bit_operations_syntax

section \<open>Memory, pointers and C strings\<close>

text \<open>
  The request buffer of \<^verbatim>\<open>lwan-request.c\<close> is one allocation of bytes that the parser
  reads and overwrites in place.  It is modelled as a list of bytes; a \<^verbatim>\<open>char *\<close> into it
  is an offset, or \<open>NULL\<close>.  Every access outside the allocation, and every use of a
  \<open>NULL\<close> pointer as an address, is undefined behaviour in C: the model returns \<open>None\<close>
  there, so a function of the model that returns \<open>Some\<close> stayed inside the allocation.
\<close>

type_synonym byte = "8 word"
type_synonym mem = "byte list"

datatype ptr = NULL | Ptr nat

definition lit :: "string \<Rightarrow> byte list" where
  "lit s = map of_char s"

definition CR :: byte where "CR = 13"
definition LF :: byte where "LF = 10"

definition peek :: "mem \<Rightarrow> nat \<Rightarrow> byte option" where
  "peek m p = (if p < length m then Some (m ! p) else None)"

definition poke :: "mem \<Rightarrow> nat \<Rightarrow> byte \<Rightarrow> mem option" where
  "poke m p b = (if p < length m then Some (m[p := b]) else None)"

definition bytes_at :: "mem \<Rightarrow> nat \<Rightarrow> nat \<Rightarrow> byte list option" where
  "bytes_at m p n = (if p + n \<le> length m then Some (take n (drop p m)) else None)"

definition deref :: "ptr \<Rightarrow> nat option" where
  "deref p = (case p of NULL \<Rightarrow> None | Ptr a \<Rightarrow> Some a)"

text \<open>\<^verbatim>\<open>(size_t)\<close> of a pointer difference: 64-bit wrap-around written out.\<close>

definition size_t :: "int \<Rightarrow> nat" where
  "size_t i = nat (i mod 2 ^ 64)"

text \<open>The contents of the C string at \<open>p\<close>: the bytes before the first NUL.\<close>

definition cstr :: "mem \<Rightarrow> nat \<Rightarrow> byte list" where
  "cstr m p = takeWhile (\<lambda>b. b \<noteq> 0) (drop p m)"

text \<open>\<^verbatim>\<open>strrchr(s, c)\<close>: scan to the terminating NUL, remembering the last match.\<close>

function strrchr_from :: "mem \<Rightarrow> nat \<Rightarrow> byte \<Rightarrow> ptr \<Rightarrow> ptr option" where
  "strrchr_from m p c found =
     (if p < length m then
        (let found' = (if m ! p = c then Ptr p else found)
         in if m ! p = 0 then Some found' else strrchr_from m (Suc p) c found')
      else None)"
  by pat_completeness auto
termination
  by (relation "measure (\<lambda>(m, p, c, found). length m - p)") auto

declare strrchr_from.simps [simp del]

definition strrchr :: "mem \<Rightarrow> nat \<Rightarrow> byte \<Rightarrow> ptr option" where
  "strrchr m p c = strrchr_from m p c NULL"

section \<open>Data model\<close>

datatype lwan_read_finalizer =
    FINALIZER_DONE
  | FINALIZER_TRY_AGAIN
  | FINALIZER_YIELD_TRY_AGAIN
  | FINALIZER_ERROR_TOO_LARGE

datatype lwan_http_status =
    HTTP_OK
  | HTTP_BAD_REQUEST
  | HTTP_NOT_AUTHORIZED
  | HTTP_NOT_FOUND
  | HTTP_NOT_ALLOWED
  | HTTP_TIMEOUT
  | HTTP_TOO_LARGE
  | HTTP_INTERNAL_ERROR
  | HTTP_NOT_IMPLEMENTED
  | HTTP_OTHER nat

text \<open>
  Modelled from the spec: the numeric values of \<^verbatim>\<open>lwan_http_status_t\<close> are declared in
  \<^verbatim>\<open>lwan.h\<close>, which is not part of the source at hand; the error table of the
  specification gives them.
\<close>

fun status_code :: "lwan_http_status \<Rightarrow> nat" where
  "status_code HTTP_OK = 200"
| "status_code HTTP_BAD_REQUEST = 400"
| "status_code HTTP_NOT_AUTHORIZED = 401"
| "status_code HTTP_NOT_FOUND = 404"
| "status_code HTTP_NOT_ALLOWED = 405"
| "status_code HTTP_TIMEOUT = 408"
| "status_code HTTP_TOO_LARGE = 413"
| "status_code HTTP_INTERNAL_ERROR = 500"
| "status_code HTTP_NOT_IMPLEMENTED = 501"
| "status_code (HTTP_OTHER n) = n"

text \<open>
  Modelled from the spec: \<^verbatim>\<open>DEFAULT_BUFFER_SIZE\<close> is a macro of \<^verbatim>\<open>lwan.h\<close>; the
  specification gives it as 4 KiB.
\<close>

definition DEFAULT_BUFFER_SIZE :: nat where
  "DEFAULT_BUFFER_SIZE = 4096"

text \<open>The request flags are a bit set; each flag is one bit, so the set of raised flags models it.\<close>

datatype lwan_request_flags =
    REQUEST_METHOD_GET
  | REQUEST_METHOD_HEAD
  | REQUEST_METHOD_POST
  | REQUEST_IS_HTTP_1_0
  | REQUEST_PROXIED
  | REQUEST_ACCEPT_GZIP
  | REQUEST_ACCEPT_DEFLATE
  | REQUEST_ALLOW_PROXY_REQS
  | RESPONSE_URL_REWRITTEN

record lwan_value =
  val :: ptr
  len :: nat

definition no_value :: lwan_value where
  "no_value = \<lparr>val = NULL, len = 0\<rparr>"

record request_parser_helper =
  buffer :: lwan_value
  next_request :: ptr
  accept_encoding :: lwan_value
  if_modified_since :: lwan_value
  range_hdr :: lwan_value
  cookie :: lwan_value
  query_string :: lwan_value
  fragment :: lwan_value
  content_length :: lwan_value
  post_data :: lwan_value
  content_type :: lwan_value
  authorization :: lwan_value
  urls_rewritten :: int
  connection :: byte

text \<open>The designated initialiser of \<^verbatim>\<open>lwan_process_request\<close>: every other field is zero.\<close>

definition init_helper :: "lwan_value \<Rightarrow> ptr \<Rightarrow> request_parser_helper" where
  "init_helper buf nxt =
     \<lparr>buffer = buf, next_request = nxt, accept_encoding = no_value,
      if_modified_since = no_value, range_hdr = no_value, cookie = no_value,
      query_string = no_value, fragment = no_value, content_length = no_value,
      post_data = no_value, content_type = no_value, authorization = no_value,
      urls_rewritten = 0, connection = 0\<rparr>"

section \<open>Method tag\<close>

text \<open>
  Modelled from the spec: \<^verbatim>\<open>STRING_SWITCH\<close> and \<^verbatim>\<open>MULTICHAR_CONSTANT\<close> are macros of
  \<^verbatim>\<open>lwan.h\<close>.  The specification describes them as comparing the four bytes at a
  pointer with a four-byte tag; equality of the 32-bit words is equality of the four bytes.
\<close>

definition string_as_int32 :: "mem \<Rightarrow> nat \<Rightarrow> byte list option" where
  "string_as_int32 m p = bytes_at m p 4"

definition MULTICHAR_CONSTANT :: "string \<Rightarrow> byte list" where
  "MULTICHAR_CONSTANT tag = lit tag"

definition get_http_method :: "mem \<Rightarrow> nat \<Rightarrow> lwan_request_flags set option" where
  "get_http_method m p = do {
     w \<leftarrow> string_as_int32 m p;
     Some (if w = MULTICHAR_CONSTANT ''GET '' then {REQUEST_METHOD_GET}
           else if w = MULTICHAR_CONSTANT ''HEAD'' then {REQUEST_METHOD_HEAD}
           else if w = MULTICHAR_CONSTANT ''POST'' then {REQUEST_METHOD_POST}
           else {})
   }"

section \<open>Request-head finalizer\<close>

definition read_request_finalizer ::
  "mem \<Rightarrow> nat \<Rightarrow> nat \<Rightarrow> request_parser_helper \<Rightarrow>
     (lwan_read_finalizer \<times> request_parser_helper) option" where
  "read_request_finalizer m total_read buffer_size helper =
     (if total_read < 4 then Some (FINALIZER_YIELD_TRY_AGAIN, helper)
      else if total_read = buffer_size then Some (FINALIZER_ERROR_TOO_LARGE, helper)
      else if next_request helper \<noteq> NULL then
        Some (FINALIZER_DONE, helper\<lparr>next_request := NULL\<rparr>)
      else do {
        b \<leftarrow> deref (val (buffer helper));
        tail \<leftarrow> bytes_at m (b + total_read - 4) 4;
        if tail = [CR, LF, CR, LF] then Some (FINALIZER_DONE, helper)
        else do {
          method \<leftarrow> get_http_method m b;
          if method = {REQUEST_METHOD_POST} then do {
            post_data_separator \<leftarrow> strrchr m b LF;
            case post_data_separator of
              NULL \<Rightarrow> Some (FINALIZER_TRY_AGAIN, helper)
            | Ptr s \<Rightarrow>
                if s < 3 then None
                else do {
                  before \<leftarrow> bytes_at m (s - 3) 3;
                  if before = [CR, LF, CR] then Some (FINALIZER_DONE, helper)
                  else Some (FINALIZER_TRY_AGAIN, helper)
                }
          } else Some (FINALIZER_TRY_AGAIN, helper)
        }
      })"

section \<open>Body reader\<close>

text \<open>
  \<^verbatim>\<open>parse_long\<close> comes from \<^verbatim>\<open>lwan-config.h\<close> and is not part of the source at hand: it
  is a parameter, taking the memory, the address of the string and the default value.
\<close>

definition read_post_data ::
  "(mem \<Rightarrow> nat \<Rightarrow> int \<Rightarrow> int) \<Rightarrow> mem \<Rightarrow> request_parser_helper \<Rightarrow>
     (lwan_http_status \<times> request_parser_helper) option" where
  "read_post_data parse_long m helper =
     (case next_request helper of
        NULL \<Rightarrow> Some (HTTP_BAD_REQUEST, helper)
      | Ptr nr \<Rightarrow>
         (case val (content_length helper) of
            NULL \<Rightarrow> Some (HTTP_BAD_REQUEST, helper)
          | Ptr cl \<Rightarrow>
             (let parsed_length = parse_long m cl (int DEFAULT_BUFFER_SIZE)
              in if parsed_length > int DEFAULT_BUFFER_SIZE then Some (HTTP_TOO_LARGE, helper)
                 else if parsed_length < 0 then Some (HTTP_BAD_REQUEST, helper)
                 else do {
                   b \<leftarrow> deref (val (buffer helper));
                   let post_data_size = nat parsed_length;
                       buffer_end = b + len (buffer helper);
                       have = size_t (int buffer_end - int nr)
                   in if have = post_data_size then
                        Some (HTTP_OK,
                              helper\<lparr>post_data := \<lparr>val = Ptr nr, len = post_data_size\<rparr>,
                                     next_request := Ptr (nr + post_data_size)\<rparr>)
                      else if post_data_size > have then Some (HTTP_TOO_LARGE, helper)
                      else Some (HTTP_NOT_IMPLEMENTED, helper)
                 })))"


section \<open>Percent decoding\<close>

text \<open>
  \<^verbatim>\<open>char\<close> is signed on the platforms the server targets, so comparisons of characters are
  signed comparisons of bytes.
\<close>

definition decode_hex_digit :: "byte \<Rightarrow> byte" where
  "decode_hex_digit ch = (if word_sle ch 57 then ch - 48 else (ch AND 7) + 9)"

definition is_hex_digit :: "byte \<Rightarrow> bool" where
  "is_hex_digit ch \<longleftrightarrow>
     (word_sle 48 ch \<and> word_sle ch 57) \<or> (word_sle 97 ch \<and> word_sle ch 102) \<or>
     (word_sle 65 ch \<and> word_sle ch 70)"

text \<open>\<^verbatim>\<open>is_hex_digit(ch[1]) && is_hex_digit(ch[2])\<close>: the second byte is read only after the first passed.\<close>

definition hex_escape :: "mem \<Rightarrow> nat \<Rightarrow> bool option" where
  "hex_escape m ch = do {
     c1 \<leftarrow> peek m (ch + 1);
     if is_hex_digit c1 then do { c2 \<leftarrow> peek m (ch + 2); Some (is_hex_digit c2) }
     else Some False
   }"

function url_decode_loop :: "mem \<Rightarrow> nat \<Rightarrow> nat \<Rightarrow> nat \<Rightarrow> (mem \<times> nat) option" where
  "url_decode_loop m str ch decoded =
     (case peek m ch of
        None \<Rightarrow> None
      | Some c \<Rightarrow>
          if c = 0 then map_option (\<lambda>m'. (m', decoded - str)) (poke m decoded 0)
          else
            (case (if c = 37 then hex_escape m ch else Some False) of
               None \<Rightarrow> None
             | Some True \<Rightarrow>
                 (let tmp = push_bit 4 (decode_hex_digit (m ! (ch + 1))) OR
                            decode_hex_digit (m ! (ch + 2))
                  in if tmp = 0 then Some (m, 0)
                     else (case poke m decoded tmp of
                             None \<Rightarrow> None
                           | Some m' \<Rightarrow> url_decode_loop m' str (ch + 3) (Suc decoded)))
             | Some False \<Rightarrow>
                 (case poke m decoded (if c = 43 then 32 else c) of
                    None \<Rightarrow> None
                  | Some m' \<Rightarrow> url_decode_loop m' str (Suc ch) (Suc decoded))))"
  by pat_completeness auto
termination
  by (relation "measure (\<lambda>(m, str, ch, decoded). length m - ch)")
     (auto simp: peek_def poke_def split: if_splits)

declare url_decode_loop.simps [simp del]

definition url_decode :: "mem \<Rightarrow> ptr \<Rightarrow> (mem \<times> nat) option" where
  "url_decode m str =
     (case str of NULL \<Rightarrow> Some (m, 0) | Ptr s \<Rightarrow> url_decode_loop m s s s)"

text \<open>
  What the decoder is meant to compute, on the contents of the string: \<open>+\<close> becomes a
  space, \<open>%\<close> followed by two hex digits becomes the byte they denote, every other byte is
  kept; \<open>None\<close> when an escape denotes NUL.
\<close>

fun url_decode_spec :: "byte list \<Rightarrow> byte list option" where
  "url_decode_spec [] = Some []"
| "url_decode_spec (c # h1 # h2 # cs) =
     (if c = 37 \<and> is_hex_digit h1 \<and> is_hex_digit h2 then
        (let b = push_bit 4 (decode_hex_digit h1) OR decode_hex_digit h2
         in if b = 0 then None else map_option ((#) b) (url_decode_spec cs))
      else map_option ((#) (if c = 43 then 32 else c)) (url_decode_spec (h1 # h2 # cs)))"
| "url_decode_spec [c] = map_option ((#) (if c = 43 then 32 else c)) (url_decode_spec [])"
| "url_decode_spec [c, h] = map_option ((#) (if c = 43 then 32 else c)) (url_decode_spec [h])"

section \<open>Key-value lists\<close>

text \<open>
  A \<^verbatim>\<open>lwan_key_value_t\<close> holds two pointers into the request buffer.  The array of pairs
  lives in its own allocation, modelled as the list of its elements; an index outside it
  is a fault.  \<^verbatim>\<open>strcmp\<close> and \<^verbatim>\<open>strncmp\<close> compare bytes as \<^verbatim>\<open>unsigned char\<close>, and only the
  sign of what they return is specified: the model returns \<open>-1\<close>, \<open>0\<close> or \<open>1\<close>.
\<close>

record lwan_key_value =
  key :: ptr
  kvalue :: ptr

record lwan_key_value_array =
  kv_base :: "lwan_key_value list"
  kv_len :: nat

function strcmp :: "mem \<Rightarrow> nat \<Rightarrow> nat \<Rightarrow> int option" where
  "strcmp m p q =
     (case (peek m p, peek m q) of
        (Some a, Some b) \<Rightarrow>
          if a \<noteq> b then Some (if a < b then - 1 else 1)
          else if a = 0 then Some 0
          else strcmp m (Suc p) (Suc q)
      | _ \<Rightarrow> None)"
  by pat_completeness auto
termination
  by (relation "measure (\<lambda>(m, p, q). length m - p)")
     (auto simp: peek_def split: if_splits)

declare strcmp.simps [simp del]

text \<open>
  \<^verbatim>\<open>strncmp(key, s, n)\<close> where \<open>key\<close> is a string of the caller, given by its contents (the
  byte after them is its NUL), and \<open>s\<close> is a string in the buffer.
\<close>

fun strncmp :: "byte list \<Rightarrow> mem \<Rightarrow> nat \<Rightarrow> nat \<Rightarrow> int option" where
  "strncmp k m p 0 = Some 0"
| "strncmp k m p (Suc n) =
     (case peek m p of
        None \<Rightarrow> None
      | Some b \<Rightarrow>
          (let a = (case k of [] \<Rightarrow> 0 | x # _ \<Rightarrow> x)
           in if a \<noteq> b then Some (if a < b then - 1 else 1)
              else if a = 0 then Some 0
              else strncmp (tl k) m (Suc p) n))"

definition key_value_compare_qsort_key ::
  "mem \<Rightarrow> lwan_key_value \<Rightarrow> lwan_key_value \<Rightarrow> int option" where
  "key_value_compare_qsort_key m a b = do {
     ka \<leftarrow> deref (key a);
     kb \<leftarrow> deref (key b);
     strcmp m ka kb
   }"

function value_array_bsearch_loop ::
  "mem \<Rightarrow> lwan_key_value list \<Rightarrow> byte list \<Rightarrow> nat \<Rightarrow> nat \<Rightarrow> nat \<Rightarrow> ptr option" where
  "value_array_bsearch_loop m base k key_len lower_bound upper_bound =
     (if lower_bound < upper_bound then
        (let idx = (lower_bound + upper_bound) div 2
         in if idx < length base then
              (case key (base ! idx) of
                 NULL \<Rightarrow> None
               | Ptr kp \<Rightarrow>
                  (case strncmp k m kp key_len of
                     None \<Rightarrow> None
                   | Some cmp \<Rightarrow>
                       if cmp = 0 then Some (kvalue (base ! idx))
                       else if cmp > 0 then
                         value_array_bsearch_loop m base k key_len (idx + 1) upper_bound
                       else value_array_bsearch_loop m base k key_len lower_bound idx))
            else None)
      else Some NULL)"
  by pat_completeness auto
termination
  by (relation "measure (\<lambda>(m, base, k, key_len, l, u). u - l)") auto

declare value_array_bsearch_loop.simps [simp del]

definition value_array_bsearch :: "mem \<Rightarrow> lwan_key_value list \<Rightarrow> nat \<Rightarrow> byte list \<Rightarrow> ptr option" where
  "value_array_bsearch m base n k =
     (if n = 0 then Some NULL
      else value_array_bsearch_loop m base k (length k) 0 n)"

datatype lwan_connection_flags = CONN_KEEP_ALIVE | CONN_MUST_READ

text \<open>
  The request carries the flags of its connection (\<^verbatim>\<open>request->conn->flags\<close>) as the field
  \<open>conn_flags\<close>.
\<close>

record lwan_request =
  flags :: "lwan_request_flags set"
  conn_flags :: "lwan_connection_flags set"
  url :: lwan_value
  original_url :: lwan_value
  query_params :: lwan_key_value_array
  req_post_data :: lwan_key_value_array
  cookies :: lwan_key_value_array
  header_if_modified_since :: int
  header_range_from :: int
  header_range_to :: int

definition lwan_request_get_query_param :: "mem \<Rightarrow> lwan_request \<Rightarrow> byte list \<Rightarrow> ptr option" where
  "lwan_request_get_query_param m request k =
     value_array_bsearch m (kv_base (query_params request)) (kv_len (query_params request)) k"

definition lwan_request_get_post_param :: "mem \<Rightarrow> lwan_request \<Rightarrow> byte list \<Rightarrow> ptr option" where
  "lwan_request_get_post_param m request k =
     value_array_bsearch m (kv_base (req_post_data request)) (kv_len (req_post_data request)) k"

definition lwan_request_get_cookie :: "mem \<Rightarrow> lwan_request \<Rightarrow> byte list \<Rightarrow> ptr option" where
  "lwan_request_get_cookie m request k =
     value_array_bsearch m (kv_base (cookies request)) (kv_len (cookies request)) k"


text \<open>The contents of the key of a pair, for stating properties of a list of pairs.\<close>

definition key_string :: "mem \<Rightarrow> lwan_key_value \<Rightarrow> byte list" where
  "key_string m kv = (case key kv of NULL \<Rightarrow> [] | Ptr kp \<Rightarrow> cstr m kp)"

definition valid_key :: "mem \<Rightarrow> lwan_key_value \<Rightarrow> bool" where
  "valid_key m kv = (case key kv of NULL \<Rightarrow> False | Ptr kp \<Rightarrow> 0 \<in> set (drop kp m))"

text \<open>The sign of a comparison of two strings, by the lexicographic order of their bytes.\<close>

definition cmp3 :: "byte list \<Rightarrow> byte list \<Rightarrow> int" where
  "cmp3 a b = (if a < b then - 1 else if a = b then 0 else 1)"

section \<open>Request line\<close>

fun memchr :: "mem \<Rightarrow> nat \<Rightarrow> byte \<Rightarrow> nat \<Rightarrow> ptr option" where
  "memchr m p c 0 = Some NULL"
| "memchr m p c (Suc n) =
     (case peek m p of
        None \<Rightarrow> None
      | Some b \<Rightarrow> if b = c then Some (Ptr p) else memchr m (Suc p) c n)"

text \<open>\<^verbatim>\<open>memrchr\<close> scans the \<open>n\<close> bytes from the last one backwards.\<close>

fun memrchr :: "mem \<Rightarrow> nat \<Rightarrow> byte \<Rightarrow> nat \<Rightarrow> ptr option" where
  "memrchr m p c 0 = Some NULL"
| "memrchr m p c (Suc n) =
     (case peek m (p + n) of
        None \<Rightarrow> None
      | Some b \<Rightarrow> if b = c then Some (Ptr (p + n)) else memrchr m p c n)"

function strchr :: "mem \<Rightarrow> nat \<Rightarrow> byte \<Rightarrow> ptr option" where
  "strchr m p c =
     (case peek m p of
        None \<Rightarrow> None
      | Some b \<Rightarrow>
          if b = c then Some (Ptr p)
          else if b = 0 then Some NULL
          else strchr m (Suc p) c)"
  by pat_completeness auto
termination
  by (relation "measure (\<lambda>(m, p, c). length m - p)") (auto simp: peek_def split: if_splits)

declare strchr.simps [simp del]

definition identify_http_method ::
  "mem \<Rightarrow> lwan_request \<Rightarrow> nat \<Rightarrow> (nat \<times> lwan_request) option" where
  "identify_http_method m request p = do {
     method \<leftarrow> get_http_method m p;
     let size = (if method = {REQUEST_METHOD_GET} then 4
                 else if method = {REQUEST_METHOD_HEAD} then 5
                 else if method = {REQUEST_METHOD_POST} then 5
                 else 0);
     Some (p + size, request\<lparr>flags := flags request \<union> method\<rparr>)
   }"

definition parse_fragment_and_query ::
  "mem \<Rightarrow> lwan_request \<Rightarrow> request_parser_helper \<Rightarrow> nat \<Rightarrow>
     (mem \<times> lwan_request \<times> request_parser_helper) option" where
  "parse_fragment_and_query m request helper space = do {
     u \<leftarrow> deref (val (url request));
     fragment_p \<leftarrow> memrchr m u (of_char CHR ''#'') (len (url request));
     (m1, request1, helper1) \<leftarrow>
       (case fragment_p of
          NULL \<Rightarrow> Some (m, request, helper)
        | Ptr f \<Rightarrow> do {
            m' \<leftarrow> poke m f 0;
            let flen = size_t (int space - int f - 1);
            Some (m',
                  request\<lparr>url := (url request)\<lparr>len := size_t (int (len (url request)) - (int flen + 1))\<rparr>\<rparr>,
                  helper\<lparr>fragment := \<lparr>val = Ptr (f + 1), len = flen\<rparr>\<rparr>)
          });
     query_p \<leftarrow> memchr m1 u (of_char CHR ''?'') (len (url request1));
     (case query_p of
        NULL \<Rightarrow> Some (m1, request1, helper1)
      | Ptr q \<Rightarrow> do {
          m' \<leftarrow> poke m1 q 0;
          let qlen = size_t (int (case fragment_p of NULL \<Rightarrow> space | Ptr f \<Rightarrow> f) - int q - 1);
          Some (m',
                request1\<lparr>url := (url request1)\<lparr>len := size_t (int (len (url request1)) - (int qlen + 1))\<rparr>\<rparr>,
                helper1\<lparr>query_string := \<lparr>val = Ptr (q + 1), len = qlen\<rparr>\<rparr>)
        })
   }"

definition minimal_request_line_len :: nat where
  "minimal_request_line_len = length ''/ HTTP/1.0''"

text \<open>
  The result pointer is \<open>NULL\<close> where the source returns \<^verbatim>\<open>NULL\<close>; the writes and the flag
  set before that return stay.  \<^verbatim>\<open>sizeof("HTTP/X.X")\<close> is 9, the terminating NUL included.
\<close>

definition identify_http_path ::
  "mem \<Rightarrow> lwan_request \<Rightarrow> nat \<Rightarrow> request_parser_helper \<Rightarrow>
     (ptr \<times> mem \<times> lwan_request \<times> request_parser_helper) option" where
  "identify_http_path m request p helper = do {
     b \<leftarrow> deref (val (buffer helper));
     end_of_line_p \<leftarrow> memchr m p CR (size_t (int (len (buffer helper)) - int (size_t (int p - int b))));
     (case end_of_line_p of
        NULL \<Rightarrow> Some (NULL, m, request, helper)
      | Ptr end_of_line \<Rightarrow>
          if size_t (int end_of_line - int p) < minimal_request_line_len then
            Some (NULL, m, request, helper)
          else do {
            m1 \<leftarrow> poke m end_of_line 0;
            space \<leftarrow> (if end_of_line < 9 then None else Some (end_of_line - 9));
            h \<leftarrow> peek m1 (space + 1);
            if h \<noteq> of_char CHR ''H'' then Some (NULL, m1, request, helper)
            else do {
              m2 \<leftarrow> poke m1 space 0;
              major \<leftarrow> peek m2 (space + 6);
              if major \<noteq> of_char CHR ''1'' then Some (NULL, m2, request, helper)
              else do {
                minor \<leftarrow> peek m2 (space + 8);
                let request1 = (if minor = of_char CHR ''0''
                                then request\<lparr>flags := insert REQUEST_IS_HTTP_1_0 (flags request)\<rparr>
                                else request);
                first \<leftarrow> peek m2 p;
                if first \<noteq> of_char CHR ''/'' then Some (NULL, m2, request1, helper)
                else do {
                  let request2 = request1\<lparr>url := \<lparr>val = Ptr p, len = size_t (int space - int p)\<rparr>\<rparr>;
                  (m3, request3, helper3) \<leftarrow> parse_fragment_and_query m2 request2 helper space;
                  Some (Ptr (end_of_line + 1), m3, request3\<lparr>original_url := url request3\<rparr>, helper3)
                }
              }
            }
          })
   }"




section \<open>Headers\<close>

definition has_zero_byte :: "32 word \<Rightarrow> 32 word" where
  "has_zero_byte n = ((n - 0x01010101) AND NOT n) AND 0x80808080"

text \<open>\<^verbatim>\<open>(uint32_t)ch\<close> of a signed \<^verbatim>\<open>char\<close> extends the sign.\<close>

definition is_space :: "byte \<Rightarrow> 32 word" where
  "is_space ch = has_zero_byte ((0x1010101 * scast ch) XOR 0x090a0d20)"

function ignore_leading_whitespace :: "mem \<Rightarrow> nat \<Rightarrow> nat option" where
  "ignore_leading_whitespace m p =
     (case peek m p of
        None \<Rightarrow> None
      | Some c \<Rightarrow> if c \<noteq> 0 \<and> is_space c \<noteq> 0 then ignore_leading_whitespace m (Suc p)
                  else Some p)"
  by pat_completeness auto
termination
  by (relation "measure (\<lambda>(m, p). length m - p)") (auto simp: peek_def split: if_splits)

declare ignore_leading_whitespace.simps [simp del]

text \<open>
  Modelled from the spec: \<^verbatim>\<open>STRING_SWITCH_SMALL\<close>, \<^verbatim>\<open>STRING_SWITCH_L\<close> and the
  \<^verbatim>\<open>MULTICHAR_CONSTANT\<close> macros they are used with come from \<^verbatim>\<open>lwan.h\<close>.  The
  specification describes the header dispatch as a match of the bytes at the line start
  with a two-byte or four-byte tag.
\<close>

definition string_as_int16 :: "mem \<Rightarrow> nat \<Rightarrow> byte list option" where
  "string_as_int16 m p = bytes_at m p 2"

text \<open>
  The macro \<^verbatim>\<open>MATCH_HEADER\<close>: it returns from \<open>parse_headers\<close> with \<^verbatim>\<open>NULL\<close>, jumps to
  \<^verbatim>\<open>did_not_match\<close> with the cursor where it stands, or falls through with the value slice.
\<close>

datatype match_result =
    MatchReturnNull
  | DidNotMatch mem nat
  | Matched mem nat nat nat

definition MATCH_HEADER :: "mem \<Rightarrow> nat \<Rightarrow> nat \<Rightarrow> string \<Rightarrow> match_result option" where
  "MATCH_HEADER m buffer_end p hdr =
     (let p1 = p + length hdr
      in if p1 \<ge> buffer_end then Some MatchReturnNull
         else do {
           colon \<leftarrow> string_as_int16 m p1;
           if colon \<noteq> lit '': '' then Some (DidNotMatch m p1)
           else do {
             end_p \<leftarrow> strchr m (p1 + 2) CR;
             (case end_p of
                NULL \<Rightarrow> Some (DidNotMatch m (p1 + 2))
              | Ptr e \<Rightarrow> do {
                  m' \<leftarrow> poke m e 0;
                  nl \<leftarrow> peek m' (e + 1);
                  if nl \<noteq> LF then Some (DidNotMatch m' (e + 1))
                  else Some (Matched m' (e + 1) (p1 + 2) (size_t (int e - int (p1 + 2))))
                })
           }
         })"

text \<open>One pass through the body of the \<^verbatim>\<open>for\<close> loop, from the tag dispatch to the \<^verbatim>\<open>memchr\<close>.\<close>

datatype header_step =
    Return ptr mem request_parser_helper
  | RetryAccept
  | RetryContent
  | NextLine mem request_parser_helper nat

definition store_header ::
  "match_result option \<Rightarrow> request_parser_helper \<Rightarrow>
   (mem \<Rightarrow> nat \<Rightarrow> nat \<Rightarrow> request_parser_helper \<Rightarrow> request_parser_helper) \<Rightarrow>
   (mem \<times> request_parser_helper \<times> nat) option option" where
  "store_header r helper store =
     (case r of
        None \<Rightarrow> None
      | Some MatchReturnNull \<Rightarrow> Some None
      | Some (DidNotMatch m' p') \<Rightarrow> Some (Some (m', helper, p'))
      | Some (Matched m' p' v l) \<Rightarrow> Some (Some (m', store m' v l helper, p')))"

definition header_switch ::
  "mem \<Rightarrow> request_parser_helper \<Rightarrow> nat \<Rightarrow> nat \<Rightarrow> byte list \<Rightarrow>
     (mem \<times> request_parser_helper \<times> nat) option option" where
  "header_switch m helper buffer_end p tag =
     (if tag = lit ''-Enc'' then
        store_header (MATCH_HEADER m buffer_end p ''-Encoding'') helper
          (\<lambda>m' v l h. h\<lparr>accept_encoding := \<lparr>val = Ptr v, len = l\<rparr>\<rparr>)
      else if tag = lit ''-Typ'' then
        store_header (MATCH_HEADER m buffer_end p ''-Type'') helper
          (\<lambda>m' v l h. h\<lparr>content_type := \<lparr>val = Ptr v, len = l\<rparr>\<rparr>)
      else if tag = lit ''-Len'' then
        store_header (MATCH_HEADER m buffer_end p ''-Length'') helper
          (\<lambda>m' v l h. h\<lparr>content_length := \<lparr>val = Ptr v, len = l\<rparr>\<rparr>)
      else if tag = lit ''Auth'' then
        store_header (MATCH_HEADER m buffer_end p ''Authorization'') helper
          (\<lambda>m' v l h. h\<lparr>authorization := \<lparr>val = Ptr v, len = l\<rparr>\<rparr>)
      else if tag = lit ''Conn'' then
        store_header (MATCH_HEADER m buffer_end p ''Connection'') helper
          (\<lambda>m' v l h. h\<lparr>connection := (m' ! v) OR 0x20\<rparr>)
      else if tag = lit ''Cook'' then
        store_header (MATCH_HEADER m buffer_end p ''Cookie'') helper
          (\<lambda>m' v l h. h\<lparr>cookie := \<lparr>val = Ptr v, len = l\<rparr>\<rparr>)
      else if tag = lit ''If-M'' then
        store_header (MATCH_HEADER m buffer_end p ''If-Modified-Since'') helper
          (\<lambda>m' v l h. h\<lparr>if_modified_since := \<lparr>val = Ptr v, len = l\<rparr>\<rparr>)
      else if tag = lit ''Rang'' then
        store_header (MATCH_HEADER m buffer_end p ''Range'') helper
          (\<lambda>m' v l h. h\<lparr>range_hdr := \<lparr>val = Ptr v, len = l\<rparr>\<rparr>)
      else Some (Some (m, helper, p)))"

definition parse_headers_step ::
  "mem \<Rightarrow> request_parser_helper \<Rightarrow> nat \<Rightarrow> nat \<Rightarrow> nat \<Rightarrow> header_step option" where
  "parse_headers_step m helper buffer_end line p = do {
     small \<leftarrow> string_as_int16 m p;
     if small = [CR, LF] then do {
       m' \<leftarrow> poke m p 0;
       Some (Return (Ptr p) m' (helper\<lparr>next_request := Ptr (p + 2)\<rparr>))
     }
     else do {
       tag \<leftarrow> string_as_int32 m p;
       if tag = lit ''Acce'' then Some RetryAccept
       else if tag = lit ''Cont'' then Some RetryContent
       else do {
         r \<leftarrow> header_switch m helper buffer_end p tag;
         (case r of
            None \<Rightarrow> Some (Return NULL m helper)
          | Some (m', helper', p') \<Rightarrow> do {
              nl \<leftarrow> memchr m' p' LF (size_t (int buffer_end - int p'));
              (case nl of
                 NULL \<Rightarrow> Some (Return (Ptr line) m' helper')
               | Ptr q \<Rightarrow> Some (NextLine m' helper' q))
            })
       }
     }
   }"

text \<open>
  The loop.  \<open>line\<close> is the variable \<^verbatim>\<open>buffer\<close> of the source, the start of the current line;
  \<open>check\<close> tells whether the iteration starts at the loop condition \<^verbatim>\<open>*p\<close> or at the label
  \<^verbatim>\<open>retry\<close>.
\<close>

function parse_headers_loop ::
  "mem \<Rightarrow> request_parser_helper \<Rightarrow> nat \<Rightarrow> nat \<Rightarrow> nat \<Rightarrow> bool \<Rightarrow>
     (ptr \<times> mem \<times> request_parser_helper) option" where
  "parse_headers_loop m helper buffer_end line p check =
     (case (if check then peek m p else Some 1) of
        None \<Rightarrow> None
      | Some c \<Rightarrow>
          if c = 0 then Some (Ptr line, m, helper)
          else if p + 4 \<ge> buffer_end then Some (Ptr line, m, helper)
          else
            (case parse_headers_step m helper buffer_end line p of
               None \<Rightarrow> None
             | Some (Return r m' helper') \<Rightarrow> Some (r, m', helper')
             | Some RetryAccept \<Rightarrow>
                 parse_headers_loop m helper buffer_end line (p + length ''Accept'') False
             | Some RetryContent \<Rightarrow>
                 parse_headers_loop m helper buffer_end line (p + length ''Content'') False
             | Some (NextLine m' helper' q) \<Rightarrow>
                 parse_headers_loop m' helper' buffer_end (Suc q) (Suc q) True))"
  by pat_completeness auto
termination
proof -
  have mc: "memchr m p c n = Some (Ptr q) \<Longrightarrow> p \<le> q" for m p c n q
  proof (induction n arbitrary: p)
    case 0
    then show ?case by simp
  next
    case (Suc n)
    then show ?case
      by (auto split: option.splits if_splits dest: Suc_leD)
  qed
  have sc: "strchr m p c = Some (Ptr q) \<Longrightarrow> p \<le> q" for m p c q
  proof (induction m p c rule: strchr.induct)
    case (1 m p c)
    from "1.prems" show ?case
      by (subst (asm) strchr.simps) (auto split: option.splits if_splits dest!: "1.IH" dest: Suc_leD)
  qed
  have mh: "p \<le> p'"
    if a: "MATCH_HEADER m e p hdr = Some r" and r: "r = DidNotMatch m' p' \<or> r = Matched m' p' v l"
    for m e p hdr r m' p' v l
  proof (cases "strchr m (p + length hdr + 2) CR")
    case None
    then show ?thesis using a r
      by (auto simp: MATCH_HEADER_def Let_def bind_eq_Some_conv split: if_splits)
  next
    case (Some end_p)
    show ?thesis
    proof (cases end_p)
      case NULL
      then show ?thesis using a r Some
        by (auto simp: MATCH_HEADER_def Let_def bind_eq_Some_conv split: if_splits)
    next
      case (Ptr x)
      then have "p + length hdr + 2 \<le> x" using Some sc by blast
      then show ?thesis using a r Some Ptr
        by (auto simp: MATCH_HEADER_def Let_def bind_eq_Some_conv split: if_splits)
    qed
  qed
  have st: "store_header (MATCH_HEADER m e p hdr) h f = Some (Some (m', h', p')) \<Longrightarrow> p \<le> p'"
    for m e p hdr h f m' h' p'
    by (auto simp: store_header_def split: option.splits match_result.splits dest: mh)
  have hs: "header_switch m h e p tag = Some (Some (m', h', p')) \<Longrightarrow> p \<le> p'"
    for m h e p tag m' h' p'
    by (auto simp: header_switch_def split: if_splits dest: st)
  have step: "p \<le> q"
    if a: "parse_headers_step m h e line p = Some (NextLine m' h' q)" for m h e line p m' h' q
  proof -
    from a obtain tag m1 h1 p1 nl where
      hsw: "header_switch m h e p tag = Some (Some (m1, h1, p1))" and
      nl: "memchr m1 p1 LF (size_t (int e - int p1)) = Some nl" and
      res: "(case nl of NULL \<Rightarrow> Some (Return (Ptr line) m1 h1) | Ptr q \<Rightarrow> Some (NextLine m1 h1 q)) =
              Some (NextLine m' h' q)"
      by (auto simp: parse_headers_step_def bind_eq_Some_conv split: if_splits option.splits)
    from res have "nl = Ptr q" by (cases nl) auto
    then have "p1 \<le> q" using nl mc by blast
    moreover have "p \<le> p1" using hsw by (rule hs)
    ultimately show ?thesis by simp
  qed
  show ?thesis
    by (relation "measure (\<lambda>(m, helper, buffer_end, line, p, check). buffer_end - p)")
       (auto dest!: step)
qed

declare parse_headers_loop.simps [simp del]

definition parse_headers ::
  "mem \<Rightarrow> request_parser_helper \<Rightarrow> nat \<Rightarrow> nat \<Rightarrow>
     (ptr \<times> mem \<times> request_parser_helper) option" where
  "parse_headers m helper line buffer_end = parse_headers_loop m helper buffer_end line line True"

definition compute_keep_alive_flag :: "lwan_request \<Rightarrow> request_parser_helper \<Rightarrow> lwan_request" where
  "compute_keep_alive_flag request helper =
     (let is_keep_alive =
            (if REQUEST_IS_HTTP_1_0 \<in> flags request
             then connection helper = of_char CHR ''k''
             else connection helper \<noteq> of_char CHR ''c'')
      in if is_keep_alive
         then request\<lparr>conn_flags := insert CONN_KEEP_ALIVE (conn_flags request)\<rparr>
         else request\<lparr>conn_flags := conn_flags request - {CONN_KEEP_ALIVE}\<rparr>)"

section \<open>Parsing one request\<close>

text \<open>
  \<^verbatim>\<open>parse_proxy_protocol\<close> reads the PROXY preamble through a C union and the C library
  (\<^verbatim>\<open>inet_pton\<close>, \<^verbatim>\<open>strtoul\<close>); it is a parameter here, called only when the request allows
  the preamble.  It returns the cursor after the preamble, or \<^verbatim>\<open>NULL\<close>.
\<close>

type_synonym proxy_parser = "mem \<Rightarrow> lwan_request \<Rightarrow> nat \<Rightarrow> (ptr \<times> mem \<times> lwan_request) option"

definition parse_http_request ::
  "proxy_parser \<Rightarrow> (mem \<Rightarrow> nat \<Rightarrow> int \<Rightarrow> int) \<Rightarrow> mem \<Rightarrow> lwan_request \<Rightarrow>
   request_parser_helper \<Rightarrow>
     (lwan_http_status \<times> mem \<times> lwan_request \<times> request_parser_helper) option" where
  "parse_http_request parse_proxy_protocol parse_long m request helper = do {
     b \<leftarrow> deref (val (buffer helper));
     (start, m0, request0) \<leftarrow>
       (if REQUEST_ALLOW_PROXY_REQS \<in> flags request then parse_proxy_protocol m request b
        else Some (Ptr b, m, request));
     (case start of
        NULL \<Rightarrow> Some (HTTP_BAD_REQUEST, m0, request0, helper)
      | Ptr start_p \<Rightarrow> do {
          ws \<leftarrow> ignore_leading_whitespace m0 start_p;
          (path, request1) \<leftarrow> identify_http_method m0 request0 ws;
          if ws = path then do {
            c \<leftarrow> peek m0 ws;
            Some (if c = 0 then HTTP_BAD_REQUEST else HTTP_NOT_ALLOWED, m0, request1, helper)
          }
          else do {
            (after_line, m1, request2, helper1) \<leftarrow> identify_http_path m0 request1 path helper;
            (case after_line of
               NULL \<Rightarrow> Some (HTTP_BAD_REQUEST, m1, request2, helper1)
             | Ptr headers \<Rightarrow> do {
                 (after_headers, m2, helper2) \<leftarrow>
                   parse_headers m1 helper1 headers (b + len (buffer helper1));
                 (case after_headers of
                    NULL \<Rightarrow> Some (HTTP_BAD_REQUEST, m2, request2, helper2)
                  | Ptr _ \<Rightarrow> do {
                      (m3, decoded_len) \<leftarrow> url_decode m2 (val (url request2));
                      if decoded_len = 0 then Some (HTTP_BAD_REQUEST, m3, request2, helper2)
                      else
                        (let request3 = request2
                               \<lparr>url := (url request2)\<lparr>len := decoded_len\<rparr>,
                                original_url := (original_url request2)\<lparr>len := decoded_len\<rparr>\<rparr>;
                             request4 = compute_keep_alive_flag request3 helper2
                         in if REQUEST_METHOD_POST \<in> flags request4 then do {
                              (status, helper3) \<leftarrow> read_post_data parse_long m3 helper2;
                              Some (status, m3, request4, helper3)
                            }
                            else Some (HTTP_OK, m3, request4, helper2))
                    })
               })
          }
        })
   }"

section \<open>Key-value list parser\<close>

definition strsep_char :: "mem \<Rightarrow> ptr \<Rightarrow> byte \<Rightarrow> (mem \<times> ptr) option" where
  "strsep_char m strp delim =
     (case strp of
        NULL \<Rightarrow> Some (m, NULL)
      | Ptr s \<Rightarrow> do {
          found \<leftarrow> strchr m s delim;
          (case found of
             NULL \<Rightarrow> Some (m, NULL)
           | Ptr q \<Rightarrow> do { m' \<leftarrow> poke m q 0; Some (m', Ptr (q + 1)) })
        })"

definition identity_decode :: "mem \<Rightarrow> ptr \<Rightarrow> (mem \<times> nat) option" where
  "identity_decode m input = Some (m, 1)"

definition n_elements :: nat where
  "n_elements = 32"

text \<open>A store into the array of pairs; an index outside the allocation is a fault.\<close>

definition array_store ::
  "lwan_key_value list \<Rightarrow> nat \<Rightarrow> lwan_key_value \<Rightarrow> lwan_key_value list option" where
  "array_store kvs i kv = (if i < length kvs then Some (kvs[i := kv]) else None)"

text \<open>
  \<^verbatim>\<open>qsort\<close> is the C library's: the result is the first \<open>n\<close> elements rearranged in the
  order of the comparator.  Insertion sort stands for it.
\<close>

fun kv_insert :: "mem \<Rightarrow> lwan_key_value \<Rightarrow> lwan_key_value list \<Rightarrow> lwan_key_value list option" where
  "kv_insert m x [] = Some [x]"
| "kv_insert m x (y # ys) = do {
     c \<leftarrow> key_value_compare_qsort_key m x y;
     if c \<le> 0 then Some (x # y # ys) else map_option ((#) y) (kv_insert m x ys)
   }"

fun kv_sort :: "mem \<Rightarrow> lwan_key_value list \<Rightarrow> lwan_key_value list option" where
  "kv_sort m [] = Some []"
| "kv_sort m (x # xs) = do { s \<leftarrow> kv_sort m xs; kv_insert m x s }"

definition qsort :: "mem \<Rightarrow> lwan_key_value list \<Rightarrow> nat \<Rightarrow> lwan_key_value list option" where
  "qsort m kvs n = map_option (\<lambda>s. s @ drop n kvs) (kv_sort m (take n kvs))"

text \<open>\<^verbatim>\<open>while (*ptr == ' ' || *ptr == separator) ptr++;\<close>\<close>

function skip_separators :: "mem \<Rightarrow> nat \<Rightarrow> byte \<Rightarrow> nat option" where
  "skip_separators m p separator =
     (case peek m p of
        None \<Rightarrow> None
      | Some c \<Rightarrow> if c = of_char CHR '' '' \<or> c = separator
                  then skip_separators m (Suc p) separator else Some p)"
  by pat_completeness auto
termination
  by (relation "measure (\<lambda>(m, p, separator). length m - p)") (auto simp: peek_def split: if_splits)

declare skip_separators.simps [simp del]

text \<open>
  The body of the \<^verbatim>\<open>do ... while\<close> loop up to the store into the array: it leaves through
  one of the three \<^verbatim>\<open>return\<close> statements, or has framed and decoded one pair.
\<close>

datatype stop_reason = EndOfString | NoEquals | DecodeFailed

datatype pair_result =
    PairStop mem stop_reason
  | PairDecoded mem nat nat ptr

type_synonym decoder = "mem \<Rightarrow> ptr \<Rightarrow> (mem \<times> nat) option"

definition kv_next_pair :: "decoder \<Rightarrow> byte \<Rightarrow> mem \<Rightarrow> nat \<Rightarrow> pair_result option" where
  "kv_next_pair decode_value separator m ptr = do {
     k \<leftarrow> skip_separators m ptr separator;
     c \<leftarrow> peek m k;
     if c = 0 then Some (PairStop m EndOfString)
     else do {
       (m1, value_p) \<leftarrow> strsep_char m (Ptr k) (of_char CHR ''='');
       (case value_p of
          NULL \<Rightarrow> Some (PairStop m1 NoEquals)
        | Ptr v \<Rightarrow> do {
            (m2, next_p) \<leftarrow> strsep_char m1 (Ptr v) separator;
            (m3, dk) \<leftarrow> decode_value m2 (Ptr k);
            if dk = 0 then Some (PairStop m3 DecodeFailed)
            else do {
              (m4, dv) \<leftarrow> decode_value m3 (Ptr v);
              if dv = 0 then Some (PairStop m4 DecodeFailed)
              else Some (PairDecoded m4 k v next_p)
            }
          })
     }
   }"

text \<open>The loop: store the pair, go on while there is input left and room for a pair.\<close>

datatype kv_loop_result =
    Stopped mem stop_reason
  | Collected mem "lwan_key_value list" nat

function kv_loop ::
  "decoder \<Rightarrow> byte \<Rightarrow> mem \<Rightarrow> nat \<Rightarrow> lwan_key_value list \<Rightarrow> nat \<Rightarrow> kv_loop_result option" where
  "kv_loop decode_value separator m ptr kvs values =
     (case kv_next_pair decode_value separator m ptr of
        None \<Rightarrow> None
      | Some (PairStop m' why) \<Rightarrow> Some (Stopped m' why)
      | Some (PairDecoded m' k v next_p) \<Rightarrow>
          (case array_store kvs values \<lparr>key = Ptr k, kvalue = Ptr v\<rparr> of
             None \<Rightarrow> None
           | Some kvs' \<Rightarrow>
               (case next_p of
                  NULL \<Rightarrow> Some (Collected m' kvs' (values + 1))
                | Ptr np \<Rightarrow>
                    if values + 1 < n_elements
                    then kv_loop decode_value separator m' np kvs' (values + 1)
                    else Some (Collected m' kvs' (values + 1)))))"
  by pat_completeness auto
termination
  by (relation "measure (\<lambda>(decode_value, separator, m, ptr, kvs, values). n_elements - values)") auto

declare kv_loop.simps [simp del]

text \<open>
  \<^verbatim>\<open>coro_malloc\<close> belongs to the coroutine library, which is not part of the source at hand:
  it is a parameter that gives the fresh array for a number of elements, or \<open>None\<close> for
  \<^verbatim>\<open>NULL\<close>.  The function returns the list base and length of the request: the ones it was
  given when it returns early, the new ones otherwise.  \<open>Aborted\<close> is the coroutine abort.
\<close>

datatype kv_result =
    Returned mem "lwan_key_value list" nat
  | Aborted

definition parse_key_values ::
  "(nat \<Rightarrow> lwan_key_value list option) \<Rightarrow> decoder \<Rightarrow> byte \<Rightarrow> mem \<Rightarrow> lwan_value \<Rightarrow>
   lwan_key_value list \<Rightarrow> nat \<Rightarrow> kv_result option" where
  "parse_key_values coro_malloc decode_value separator m helper_value base0 len0 =
     (if len helper_value = 0 then Some (Returned m base0 len0)
      else
        (case coro_malloc n_elements of
           None \<Rightarrow> Some Aborted
         | Some kvs \<Rightarrow> do {
             ptr \<leftarrow> deref (val helper_value);
             r \<leftarrow> kv_loop decode_value separator m ptr kvs 0;
             (case r of
                Stopped m' why \<Rightarrow> Some (Returned m' base0 len0)
              | Collected m' kvs' values \<Rightarrow> do {
                  kvs'' \<leftarrow> array_store kvs' values \<lparr>key = NULL, kvalue = NULL\<rparr>;
                  sorted_kvs \<leftarrow> qsort m' kvs'' values;
                  Some (Returned m' sorted_kvs values)
                })
           }))"

section \<open>Reading from the socket\<close>

text \<open>
  The socket is the environment: the outcome of the \<open>k\<close>-th call of \<^verbatim>\<open>read\<close> is given by a
  function.  \<^verbatim>\<open>read\<close> stores at most \<open>count\<close> of the bytes offered and returns their number.
  A yield with \<^verbatim>\<open>CONN_CORO_MAY_RESUME\<close> comes back when the scheduler resumes the coroutine,
  a yield with \<^verbatim>\<open>CONN_CORO_ABORT\<close> never does; both are recorded in the trace of the
  events that the collaborators of the driver see.
\<close>

datatype errno = EAGAIN | EINTR | EOTHER

datatype read_outcome = ReadBytes "byte list" | ReadError errno

datatype event =
    Yielded
  | Aborted_coro
  | DefaultResponse lwan_http_status
  | Response lwan_http_status
  | TrieLookup "byte list"
  | HandlerCalled

record driver_state =
  memory :: mem
  req :: lwan_request
  trace :: "event list"
  reads_done :: nat

definition emit :: "event \<Rightarrow> driver_state \<Rightarrow> driver_state" where
  "emit e s = s\<lparr>trace := trace s @ [e]\<rparr>"

definition set_conn_flag :: "lwan_connection_flags \<Rightarrow> driver_state \<Rightarrow> driver_state" where
  "set_conn_flag f s = s\<lparr>req := (req s)\<lparr>conn_flags := insert f (conn_flags (req s))\<rparr>\<rparr>"

definition clear_conn_flag :: "lwan_connection_flags \<Rightarrow> driver_state \<Rightarrow> driver_state" where
  "clear_conn_flag f s = s\<lparr>req := (req s)\<lparr>conn_flags := conn_flags (req s) - {f}\<rparr>\<rparr>"

text \<open>The result of code that may abort the coroutine instead of returning.\<close>

datatype 'a coro = Returns 'a driver_state | Aborts driver_state

definition write_bytes :: "mem \<Rightarrow> nat \<Rightarrow> byte list \<Rightarrow> mem option" where
  "write_bytes m p bs =
     (if p + length bs \<le> length m then Some (take p m @ bs @ drop (p + length bs) m) else None)"

type_synonym finalizer =
  "mem \<Rightarrow> nat \<Rightarrow> nat \<Rightarrow> request_parser_helper \<Rightarrow> (lwan_read_finalizer \<times> request_parser_helper) option"

text \<open>
  The \<^verbatim>\<open>switch\<close> on the finalizer.  The status is \<open>None\<close> where the source goes on reading
  (\<^verbatim>\<open>continue\<close>, after a yield for \<open>FINALIZER_YIELD_TRY_AGAIN\<close>).
\<close>

definition try_to_finalize ::
  "finalizer \<Rightarrow> nat \<Rightarrow> nat \<Rightarrow> request_parser_helper \<Rightarrow> driver_state \<Rightarrow>
     (lwan_http_status option \<times> request_parser_helper \<times> driver_state) option" where
  "try_to_finalize fin buffer_size total_read helper s = do {
     (verdict, helper') \<leftarrow> fin (memory s) total_read buffer_size helper;
     (case verdict of
        FINALIZER_DONE \<Rightarrow> do {
          b \<leftarrow> deref (val (buffer helper'));
          m' \<leftarrow> poke (memory s) (b + len (buffer helper')) 0;
          Some (Some HTTP_OK, helper', (clear_conn_flag CONN_MUST_READ s)\<lparr>memory := m'\<rparr>)
        }
      | FINALIZER_TRY_AGAIN \<Rightarrow> Some (None, helper', s)
      | FINALIZER_YIELD_TRY_AGAIN \<Rightarrow>
          Some (None, helper', emit Yielded (set_conn_flag CONN_MUST_READ s))
      | FINALIZER_ERROR_TOO_LARGE \<Rightarrow> Some (Some HTTP_TOO_LARGE, helper', s))
   }"

fun read_loop ::
  "(nat \<Rightarrow> read_outcome) \<Rightarrow> finalizer \<Rightarrow> nat \<Rightarrow> nat \<Rightarrow> request_parser_helper \<Rightarrow>
   driver_state \<Rightarrow> nat \<Rightarrow> (lwan_http_status \<times> request_parser_helper) coro option" where
  "read_loop sock fin buffer_size total_read helper s 0 = Some (Returns (HTTP_TIMEOUT, helper) s)"
| "read_loop sock fin buffer_size total_read helper s (Suc packets_remaining) =
     (let s0 = s\<lparr>reads_done := Suc (reads_done s)\<rparr>
      in case sock (reads_done s) of
           ReadError e \<Rightarrow>
             if e = EAGAIN \<or> e = EINTR then
               read_loop sock fin buffer_size total_read helper
                 (emit Yielded (set_conn_flag CONN_MUST_READ s0)) packets_remaining
             else if total_read = 0 then Some (Returns (HTTP_BAD_REQUEST, helper) s0)
             else Some (Aborts (emit Aborted_coro s0))
         | ReadBytes offered \<Rightarrow>
             (let got = take (buffer_size - total_read) offered
              in if got = [] then Some (Aborts (emit Aborted_coro s0))
                 else do {
                   b \<leftarrow> deref (val (buffer helper));
                   m' \<leftarrow> write_bytes (memory s0) (b + total_read) got;
                   let total_read' = total_read + length got;
                   let helper1 = helper\<lparr>buffer := (buffer helper)\<lparr>len := total_read'\<rparr>\<rparr>;
                   (verdict, helper2, s2) \<leftarrow>
                     try_to_finalize fin buffer_size total_read' helper1 (s0\<lparr>memory := m'\<rparr>);
                   (case verdict of
                      Some status \<Rightarrow> Some (Returns (status, helper2) s2)
                    | None \<Rightarrow>
                        read_loop sock fin buffer_size total_read' helper2 s2 packets_remaining)
                 }))"

text \<open>
  With a pipelined tail the function moves the tail to the front and enters the loop body at
  \<^verbatim>\<open>try_to_finalize\<close>; the \<^verbatim>\<open>continue\<close> that may follow counts the first of the 16 packets.
\<close>

definition read_from_request_socket ::
  "(nat \<Rightarrow> read_outcome) \<Rightarrow> finalizer \<Rightarrow> nat \<Rightarrow> request_parser_helper \<Rightarrow> driver_state \<Rightarrow>
     (lwan_http_status \<times> request_parser_helper) coro option" where
  "read_from_request_socket sock fin buffer_size helper s =
     (case next_request helper of
        Ptr nr \<Rightarrow> do {
          b \<leftarrow> deref (val (buffer helper));
          let len' = size_t (int (len (buffer helper)) - int (size_t (int nr - int b)));
          moved \<leftarrow> bytes_at (memory s) nr len';
          m' \<leftarrow> write_bytes (memory s) b moved;
          let helper1 = helper\<lparr>buffer := (buffer helper)\<lparr>len := len'\<rparr>\<rparr>;
          (verdict, helper2, s2) \<leftarrow> try_to_finalize fin buffer_size len' helper1 (s\<lparr>memory := m'\<rparr>);
          (case verdict of
             Some status \<Rightarrow> Some (Returns (status, helper2) s2)
           | None \<Rightarrow> read_loop sock fin buffer_size len' helper2 s2 15)
        }
      | NULL \<Rightarrow> read_loop sock fin buffer_size 0 helper s 16)"

definition read_request ::
  "(nat \<Rightarrow> read_outcome) \<Rightarrow> request_parser_helper \<Rightarrow> driver_state \<Rightarrow>
     (lwan_http_status \<times> request_parser_helper) coro option" where
  "read_request sock helper s =
     read_from_request_socket sock read_request_finalizer DEFAULT_BUFFER_SIZE helper s"

section \<open>Semantic post-parsers\<close>

text \<open>
  The string at a pointer, for the library calls and collaborators that take a \<^verbatim>\<open>char *\<close>;
  a string with no terminator in memory is a fault.
\<close>

definition c_string :: "mem \<Rightarrow> nat \<Rightarrow> byte list option" where
  "c_string m p = (if 0 \<in> set (drop p m) then Some (cstr m p) else None)"

datatype lwan_handler_flags =
    HANDLER_PARSE_QUERY_STRING
  | HANDLER_PARSE_IF_MODIFIED_SINCE
  | HANDLER_PARSE_RANGE
  | HANDLER_PARSE_ACCEPT_ENCODING
  | HANDLER_PARSE_COOKIES
  | HANDLER_PARSE_POST_DATA
  | HANDLER_MUST_AUTHORIZE
  | HANDLER_REMOVE_LEADING_SLASH
  | HANDLER_CAN_REWRITE_URL

text \<open>
  A handler sees the request and the memory its slices point into, and may change both;
  it returns the status to respond with.
\<close>

record lwan_url_map =
  prefix_len :: nat
  map_flags :: "lwan_handler_flags set"
  handler :: "mem \<Rightarrow> lwan_request \<Rightarrow> lwan_http_status \<times> mem \<times> lwan_request"

text \<open>
  The collaborators of the driver that are not part of the source at hand: the socket, the
  PROXY preamble reader, \<^verbatim>\<open>parse_long\<close>, the allocator, the prefix trie, the authorization
  check, and the C library's \<^verbatim>\<open>strptime\<close> with \<^verbatim>\<open>timegm\<close> (the time of a date that parses to
  its end) and \<^verbatim>\<open>sscanf\<close> (the two ends of a range after \<^verbatim>\<open>bytes=\<close>).
\<close>

record externals =
  ext_sock :: "nat \<Rightarrow> read_outcome"
  ext_parse_proxy_protocol :: proxy_parser
  ext_parse_long :: "mem \<Rightarrow> nat \<Rightarrow> int \<Rightarrow> int"
  ext_coro_malloc :: "nat \<Rightarrow> lwan_key_value list option"
  lwan_trie_lookup_prefix :: "byte list \<Rightarrow> lwan_url_map option"
  lwan_http_authorize :: "mem \<Rightarrow> lwan_request \<Rightarrow> lwan_value \<Rightarrow> bool"
  strptime_timegm :: "byte list \<Rightarrow> int option"
  sscanf_range :: "byte list \<Rightarrow> int \<times> int"

definition store_key_values ::
  "kv_result option \<Rightarrow> (lwan_key_value_array \<Rightarrow> lwan_request \<Rightarrow> lwan_request) \<Rightarrow>
   driver_state \<Rightarrow> unit coro option" where
  "store_key_values r store s =
     (case r of
        None \<Rightarrow> None
      | Some Aborted \<Rightarrow> Some (Aborts (emit Aborted_coro s))
      | Some (Returned m' base' len') \<Rightarrow>
          Some (Returns () (s\<lparr>memory := m', req := store \<lparr>kv_base = base', kv_len = len'\<rparr> (req s)\<rparr>)))"

definition parse_cookies :: "externals \<Rightarrow> request_parser_helper \<Rightarrow> driver_state \<Rightarrow> unit coro option" where
  "parse_cookies ext helper s =
     store_key_values
       (parse_key_values (ext_coro_malloc ext) identity_decode (of_char CHR '';'') (memory s) (cookie helper)
          (kv_base (cookies (req s))) (kv_len (cookies (req s))))
       (\<lambda>a r. r\<lparr>cookies := a\<rparr>) s"

definition parse_query_string :: "externals \<Rightarrow> request_parser_helper \<Rightarrow> driver_state \<Rightarrow> unit coro option" where
  "parse_query_string ext helper s =
     store_key_values
       (parse_key_values (ext_coro_malloc ext) url_decode (of_char CHR ''&'') (memory s) (query_string helper)
          (kv_base (query_params (req s))) (kv_len (query_params (req s))))
       (\<lambda>a r. r\<lparr>query_params := a\<rparr>) s"

definition parse_post_data :: "externals \<Rightarrow> request_parser_helper \<Rightarrow> driver_state \<Rightarrow> unit coro option" where
  "parse_post_data ext helper s =
     (if len (content_type helper) \<noteq> length ''application/x-www-form-urlencoded''
      then Some (Returns () s)
      else do {
        ct \<leftarrow> deref (val (content_type helper));
        name \<leftarrow> c_string (memory s) ct;
        if name \<noteq> lit ''application/x-www-form-urlencoded'' then Some (Returns () s)
        else store_key_values
               (parse_key_values (ext_coro_malloc ext) url_decode (of_char CHR ''&'') (memory s)
                  (post_data helper) (kv_base (req_post_data (req s))) (kv_len (req_post_data (req s))))
               (\<lambda>a r. r\<lparr>req_post_data := a\<rparr>) s
      })"

definition parse_if_modified_since ::
  "externals \<Rightarrow> request_parser_helper \<Rightarrow> mem \<Rightarrow> lwan_request \<Rightarrow> lwan_request option" where
  "parse_if_modified_since ext helper m request =
     (if len (if_modified_since helper) = 0 then Some request
      else do {
        v \<leftarrow> deref (val (if_modified_since helper));
        date \<leftarrow> c_string m v;
        Some (case strptime_timegm ext date of
                None \<Rightarrow> request
              | Some t \<Rightarrow> request\<lparr>header_if_modified_since := t\<rparr>)
      })"

definition parse_range ::
  "externals \<Rightarrow> request_parser_helper \<Rightarrow> mem \<Rightarrow> lwan_request \<Rightarrow> lwan_request option" where
  "parse_range ext helper m request =
     (if len (range_hdr helper) \<le> length ''bytes='' then Some request
      else do {
        v \<leftarrow> deref (val (range_hdr helper));
        r \<leftarrow> c_string m v;
        if take (length ''bytes='') r \<noteq> lit ''bytes='' then Some request
        else (let (from, to) = sscanf_range ext (drop (length ''bytes='') r)
              in Some (request\<lparr>header_range_from := from, header_range_to := to\<rparr>))
      })"

function accept_encoding_loop :: "mem \<Rightarrow> nat \<Rightarrow> lwan_request \<Rightarrow> lwan_request option" where
  "accept_encoding_loop m p request =
     (case peek m p of
        None \<Rightarrow> None
      | Some c \<Rightarrow>
          if c = 0 then Some request
          else
            (case string_as_int32 m p of
               None \<Rightarrow> None
             | Some tag \<Rightarrow>
                 (let request' =
                        (if tag = MULTICHAR_CONSTANT ''defl'' \<or> tag = MULTICHAR_CONSTANT '' def''
                         then request\<lparr>flags := insert REQUEST_ACCEPT_DEFLATE (flags request)\<rparr>
                         else if tag = MULTICHAR_CONSTANT ''gzip'' \<or> tag = MULTICHAR_CONSTANT '' gzi''
                         then request\<lparr>flags := insert REQUEST_ACCEPT_GZIP (flags request)\<rparr>
                         else request)
                  in case strchr m p (of_char CHR '','') of
                       None \<Rightarrow> None
                     | Some NULL \<Rightarrow> Some request'
                     | Some (Ptr q) \<Rightarrow> accept_encoding_loop m (Suc q) request')))"
  by pat_completeness auto
termination
proof -
  have sc: "strchr m p c = Some (Ptr q) \<Longrightarrow> p \<le> q \<and> q < length m" for m p c q
  proof (induction m p c rule: strchr.induct)
    case (1 m p c)
    note unf = "1.prems"[unfolded strchr.simps[of m p c]]
    show ?case
    proof (cases "peek m p")
      case None
      then show ?thesis using unf by simp
    next
      case (Some b)
      then have lt: "p < length m" by (auto simp: peek_def split: if_splits)
      show ?thesis
      proof (cases "b = c")
        case True
        then show ?thesis using unf Some lt by simp
      next
        case False
        then have b0: "b \<noteq> 0" using unf Some by (auto split: if_splits)
        then have "strchr m (Suc p) c = Some (Ptr q)" using unf Some False by simp
        from "1.IH"[OF Some False b0 this] show ?thesis by simp
      qed
    qed
  qed
  show ?thesis
    by (relation "measure (\<lambda>(m, p, request). length m - p)") (auto dest!: sc)
qed

declare accept_encoding_loop.simps [simp del]

definition parse_accept_encoding ::
  "request_parser_helper \<Rightarrow> mem \<Rightarrow> lwan_request \<Rightarrow> lwan_request option" where
  "parse_accept_encoding helper m request =
     (if len (accept_encoding helper) = 0 then Some request
      else (case val (accept_encoding helper) of
              NULL \<Rightarrow> Some request
            | Ptr p \<Rightarrow> accept_encoding_loop m p request))"

section \<open>Dispatch\<close>

text \<open>\<^verbatim>\<open>while (*request->url.value == '/' && request->url.len > 0)\<close>: the byte is read first.\<close>

fun remove_leading_slash :: "mem \<Rightarrow> nat \<Rightarrow> nat \<Rightarrow> (nat \<times> nat) option" where
  "remove_leading_slash m u 0 = (case peek m u of None \<Rightarrow> None | Some c \<Rightarrow> Some (u, 0))"
| "remove_leading_slash m u (Suc l) =
     (case peek m u of
        None \<Rightarrow> None
      | Some c \<Rightarrow> if c = of_char CHR ''/'' then remove_leading_slash m (Suc u) l
                  else Some (u, Suc l))"

definition prepare_for_response ::
  "externals \<Rightarrow> lwan_url_map \<Rightarrow> request_parser_helper \<Rightarrow> driver_state \<Rightarrow>
     lwan_http_status coro option" where
  "prepare_for_response ext url_map helper s = do {
     u \<leftarrow> deref (val (url (req s)));
     let s0 = s\<lparr>req := (req s)\<lparr>url :=
                 \<lparr>val = Ptr (u + prefix_len url_map),
                  len = size_t (int (len (url (req s))) - int (prefix_len url_map))\<rparr>\<rparr>\<rparr>;
     r1 \<leftarrow> (if HANDLER_PARSE_QUERY_STRING \<in> map_flags url_map then parse_query_string ext helper s0
            else Some (Returns () s0));
     (case r1 of
        Aborts sa \<Rightarrow> Some (Aborts sa)
      | Returns _ s1 \<Rightarrow> do {
          request2 \<leftarrow> (if HANDLER_PARSE_IF_MODIFIED_SINCE \<in> map_flags url_map
                       then parse_if_modified_since ext helper (memory s1) (req s1)
                       else Some (req s1));
          request3 \<leftarrow> (if HANDLER_PARSE_RANGE \<in> map_flags url_map
                       then parse_range ext helper (memory s1) request2 else Some request2);
          request4 \<leftarrow> (if HANDLER_PARSE_ACCEPT_ENCODING \<in> map_flags url_map
                       then parse_accept_encoding helper (memory s1) request3 else Some request3);
          let s4 = s1\<lparr>req := request4\<rparr>;
          r5 \<leftarrow> (if HANDLER_PARSE_COOKIES \<in> map_flags url_map then parse_cookies ext helper s4
                 else Some (Returns () s4));
          (case r5 of
             Aborts sa \<Rightarrow> Some (Aborts sa)
           | Returns _ s5 \<Rightarrow>
               if REQUEST_METHOD_POST \<in> flags (req s5) \<and> HANDLER_PARSE_POST_DATA \<notin> map_flags url_map
               then Some (Returns HTTP_NOT_ALLOWED s5)
               else do {
                 r6 \<leftarrow> (if REQUEST_METHOD_POST \<in> flags (req s5) then parse_post_data ext helper s5
                        else Some (Returns () s5));
                 (case r6 of
                    Aborts sa \<Rightarrow> Some (Aborts sa)
                  | Returns _ s6 \<Rightarrow>
                      if HANDLER_MUST_AUTHORIZE \<in> map_flags url_map \<and>
                         \<not> lwan_http_authorize ext (memory s6) (req s6) (authorization helper)
                      then Some (Returns HTTP_NOT_AUTHORIZED s6)
                      else if HANDLER_REMOVE_LEADING_SLASH \<in> map_flags url_map then do {
                        u6 \<leftarrow> deref (val (url (req s6)));
                        (u', l') \<leftarrow> remove_leading_slash (memory s6) u6 (len (url (req s6)));
                        Some (Returns HTTP_OK (s6\<lparr>req := (req s6)\<lparr>url := \<lparr>val = Ptr u', len = l'\<rparr>\<rparr>\<rparr>))
                      }
                      else Some (Returns HTTP_OK s6))
               })
        })
   }"

text \<open>The result is the flag the source returns, with the helper and the state after the call.\<close>

definition handle_rewrite ::
  "request_parser_helper \<Rightarrow> driver_state \<Rightarrow> (bool \<times> request_parser_helper \<times> driver_state) option" where
  "handle_rewrite helper s = do {
     let request0 = (req s)\<lparr>flags := flags (req s) - {RESPONSE_URL_REWRITTEN}\<rparr>;
     u \<leftarrow> deref (val (url request0));
     (m', request', helper') \<leftarrow>
       parse_fragment_and_query (memory s) request0 helper (u + len (url request0));
     let helper'' = helper'\<lparr>urls_rewritten := urls_rewritten helper' + 1\<rparr>;
     let s' = s\<lparr>memory := m', req := request'\<rparr>;
     if urls_rewritten helper'' > 4
     then Some (False, helper'', emit (DefaultResponse HTTP_INTERNAL_ERROR) s')
     else Some (True, helper'', s')
   }"


text \<open>
  One pass from the label \<^verbatim>\<open>lookup_again\<close>: it reaches \<^verbatim>\<open>out\<close>, aborts the coroutine, or
  jumps back to the label after a rewrite.
\<close>

datatype dispatch_result =
    ReachedOut request_parser_helper driver_state
  | DispatchAborted driver_state
  | LookupAgain request_parser_helper driver_state

definition after_handler ::
  "lwan_url_map \<Rightarrow> request_parser_helper \<Rightarrow> driver_state \<Rightarrow> dispatch_result option" where
  "after_handler url_map helper s2 =
     (case handler url_map (memory s2) (req s2) of
        (status, m', request') \<Rightarrow>
          (let s3 = emit HandlerCalled (s2\<lparr>memory := m', req := request'\<rparr>)
           in if HANDLER_CAN_REWRITE_URL \<in> map_flags url_map \<and>
                 RESPONSE_URL_REWRITTEN \<in> flags request'
              then do {
                (again, helper', s4) \<leftarrow> handle_rewrite helper s3;
                Some (if again then LookupAgain helper' s4 else ReachedOut helper' s4)
              }
              else Some (ReachedOut helper (emit (Response status) s3))))"

definition dispatch_once ::
  "externals \<Rightarrow> request_parser_helper \<Rightarrow> driver_state \<Rightarrow> dispatch_result option" where
  "dispatch_once ext helper s = do {
     u \<leftarrow> deref (val (url (req s)));
     path \<leftarrow> c_string (memory s) u;
     let s1 = emit (TrieLookup path) s;
     (case lwan_trie_lookup_prefix ext path of
        None \<Rightarrow> Some (ReachedOut helper (emit (DefaultResponse HTTP_NOT_FOUND) s1))
      | Some url_map \<Rightarrow> do {
          prepared \<leftarrow> prepare_for_response ext url_map helper s1;
          (case prepared of
             Aborts sa \<Rightarrow> Some (DispatchAborted sa)
           | Returns status s2 \<Rightarrow>
               if status \<noteq> HTTP_OK then Some (ReachedOut helper (emit (DefaultResponse status) s2))
               else after_handler url_map helper s2)
        })
   }"

function lookup_again ::
  "externals \<Rightarrow> request_parser_helper \<Rightarrow> driver_state \<Rightarrow> request_parser_helper coro option" where
  "lookup_again ext helper s =
     (case dispatch_once ext helper s of
        None \<Rightarrow> None
      | Some (ReachedOut helper' s') \<Rightarrow> Some (Returns helper' s')
      | Some (DispatchAborted s') \<Rightarrow> Some (Aborts s')
      | Some (LookupAgain helper' s') \<Rightarrow> lookup_again ext helper' s')"
  by pat_completeness auto
termination
proof -
  have ne: "y \<noteq> NULL \<longleftrightarrow> (\<exists>x. y = Ptr x)" for y by (cases y) auto
  have pfq: "urls_rewritten h' = urls_rewritten h"
    if "parse_fragment_and_query m r h sp = Some (m', r', h')" for m r h sp m' r' h'
    using that
    by (auto simp: parse_fragment_and_query_def bind_eq_Some_conv Let_def ne split: ptr.splits)
  have hr: "urls_rewritten h' = urls_rewritten h + 1 \<and> urls_rewritten h' \<le> 4"
    if "handle_rewrite h s = Some (True, h', s')" for h s h' s'
    using that
    by (auto simp: handle_rewrite_def bind_eq_Some_conv Let_def split: if_splits dest!: pfq)
  have ah: "urls_rewritten h' = urls_rewritten h + 1 \<and> urls_rewritten h' \<le> 4"
    if "after_handler url_map h s = Some (LookupAgain h' s')" for url_map h s h' s'
    using that
    by (auto simp: after_handler_def bind_eq_Some_conv Let_def split: prod.splits if_splits dest!: hr)
  have d: "urls_rewritten h' = urls_rewritten h + 1 \<and> urls_rewritten h' \<le> 4"
    if a: "dispatch_once ext h s = Some (LookupAgain h' s')" for ext h s h' s'
  proof -
    from a obtain path url_map prepared where
      p: "lwan_trie_lookup_prefix ext path = Some url_map"
         "(case prepared of
             Aborts sa \<Rightarrow> Some (DispatchAborted sa)
           | Returns status s2 \<Rightarrow>
               if status \<noteq> HTTP_OK then Some (ReachedOut h (emit (DefaultResponse status) s2))
               else after_handler url_map h s2) = Some (LookupAgain h' s')"
      by (auto simp: dispatch_once_def bind_eq_Some_conv Let_def split: option.splits)
    then obtain s2 where "after_handler url_map h s2 = Some (LookupAgain h' s')"
      by (cases prepared) (auto split: if_splits)
    then show ?thesis by (rule ah)
  qed
  show ?thesis
    by (relation "measure (\<lambda>(ext, helper, s). nat (5 - urls_rewritten helper))")
       (auto dest!: d)
qed

declare lookup_again.simps [simp del]

definition lwan_process_request ::
  "externals \<Rightarrow> lwan_value \<Rightarrow> ptr \<Rightarrow> driver_state \<Rightarrow> (ptr \<times> request_parser_helper) coro option" where
  "lwan_process_request ext buf next_request_p s =
     (case read_request (ext_sock ext) (init_helper buf next_request_p) s of
        None \<Rightarrow> None
      | Some (Aborts sa) \<Rightarrow> Some (Aborts sa)
      | Some (Returns (status, helper) s1) \<Rightarrow>
          if status \<noteq> HTTP_OK then
            (if status = HTTP_BAD_REQUEST \<and> next_request helper \<noteq> NULL
             then Some (Returns (next_request helper, helper) s1)
             else Some (Aborts (emit Aborted_coro (emit (DefaultResponse status) s1))))
          else
            (case parse_http_request (ext_parse_proxy_protocol ext) (ext_parse_long ext) (memory s1) (req s1) helper of
               None \<Rightarrow> None
             | Some (status2, m2, request2, helper2) \<Rightarrow>
                 if status2 \<noteq> HTTP_OK then
                   Some (Returns (next_request helper2, helper2)
                           (emit (DefaultResponse status2) (s1\<lparr>memory := m2, req := request2\<rparr>)))
                 else
                   (case lookup_again ext helper2 (s1\<lparr>memory := m2, req := request2\<rparr>) of
                      None \<Rightarrow> None
                    | Some (Aborts sa) \<Rightarrow> Some (Aborts sa)
                    | Some (Returns helper3 s3) \<Rightarrow> Some (Returns (next_request helper3, helper3) s3))))"

section \<open>Observations on the trace\<close>

text \<open>
  What the collaborators saw of a run: the state it ended in, the number of lookups in the
  prefix trie, and the responses sent to the client.
\<close>

definition final_state :: "'a coro \<Rightarrow> driver_state" where
  "final_state r = (case r of Returns x s \<Rightarrow> s | Aborts s \<Rightarrow> s)"

definition lookups :: "event list \<Rightarrow> nat" where
  "lookups t = length (filter (\<lambda>e. case e of TrieLookup p \<Rightarrow> True | _ \<Rightarrow> False) t)"

definition responses :: "event list \<Rightarrow> event list" where
  "responses t = filter (\<lambda>e. case e of DefaultResponse st \<Rightarrow> True | Response st \<Rightarrow> True | _ \<Rightarrow> False) t"

section \<open>Binary search as the specification words it\<close>

text \<open>
  The specification's lookup, on the list of the key strings: binary search that compares
  the first \<^verbatim>\<open>strlen(key)\<close> bytes of a stored key with the query key, the first probe that
  matches winning.  The result is the index of that probe.
\<close>

function binary_search_spec :: "byte list list \<Rightarrow> byte list \<Rightarrow> nat \<Rightarrow> nat \<Rightarrow> nat option" where
  "binary_search_spec keys k lo hi =
     (if lo < hi then
        (let idx = (lo + hi) div 2
         in if take (length k) (keys ! idx) = k then Some idx
            else if take (length k) (keys ! idx) < k then binary_search_spec keys k (idx + 1) hi
            else binary_search_spec keys k lo idx)
      else None)"
  by pat_completeness auto
termination
  by (relation "measure (\<lambda>(keys, k, lo, hi). hi - lo)") auto

declare binary_search_spec.simps [simp del]

section \<open>Passes of the key-value loop\<close>

text \<open>
  The memory and the cursor after \<open>j\<close> passes of the loop body that each framed and
  decoded a pair and left input after it.
\<close>

fun kv_after_pairs :: "decoder \<Rightarrow> byte \<Rightarrow> mem \<Rightarrow> nat \<Rightarrow> nat \<Rightarrow> (mem \<times> nat) option" where
  "kv_after_pairs decode_value separator m ptr 0 = Some (m, ptr)"
| "kv_after_pairs decode_value separator m ptr (Suc j) =
     (case kv_next_pair decode_value separator m ptr of
        Some (PairDecoded m' k v (Ptr np)) \<Rightarrow> kv_after_pairs decode_value separator m' np j
      | _ \<Rightarrow> None)"

section \<open>Sample inputs\<close>

text \<open>A POST request with a three-byte body, followed by the NUL that ends the buffer.\<close>

definition ex_post :: mem where
  "ex_post = lit ''POST /f HTTP/1.1'' @ [CR, LF, CR, LF] @ lit ''a=1'' @ [0]"

definition ex_post_helper :: request_parser_helper where
  "ex_post_helper = init_helper \<lparr>val = Ptr 0, len = 23\<rparr> NULL"

text \<open>The helper after the header block of \<open>ex_post\<close>: the body starts at offset 20.\<close>

definition ex_body_helper :: request_parser_helper where
  "ex_body_helper =
     (init_helper \<lparr>val = Ptr 0, len = 23\<rparr> (Ptr 20))\<lparr>content_length := \<lparr>val = Ptr 5, len = 1\<rparr>\<rparr>"

definition ex_full_helper :: request_parser_helper where
  "ex_full_helper = init_helper \<lparr>val = Ptr 0, len = DEFAULT_BUFFER_SIZE\<rparr> (Ptr 100)"

definition ex_escaped :: "byte list" where "ex_escaped = lit ''a%20b+c''"

definition ex_nul_escape :: "byte list" where "ex_nul_escape = lit ''ab%00''"

definition ex_stray :: "byte list" where "ex_stray = lit ''%zz''"

text \<open>Two pairs \<open>foo=1\<close> and \<open>foobar=2\<close>, sorted, with the sentinel after them.\<close>

definition ex_foo_mem :: mem where
  "ex_foo_mem = lit ''foo'' @ [0] @ lit ''1'' @ [0] @ lit ''foobar'' @ [0] @ lit ''2'' @ [0]"

definition ex_foo_kvs :: "lwan_key_value list" where
  "ex_foo_kvs = [\<lparr>key = Ptr 0, kvalue = Ptr 4\<rparr>, \<lparr>key = Ptr 6, kvalue = Ptr 13\<rparr>,
                 \<lparr>key = NULL, kvalue = NULL\<rparr>]"


definition ex_request :: lwan_request where
  "ex_request = \<lparr>flags = {}, conn_flags = {}, url = no_value, original_url = no_value,
     query_params = \<lparr>kv_base = [], kv_len = 0\<rparr>, req_post_data = \<lparr>kv_base = [], kv_len = 0\<rparr>,
     cookies = \<lparr>kv_base = [], kv_len = 0\<rparr>, header_if_modified_since = 0,
     header_range_from = 0, header_range_to = 0\<rparr>"

definition ex_pipelined :: mem where
  "ex_pipelined = lit ''GET /%00 HTTP/1.1'' @ [CR, LF, CR, LF] @
                  lit ''GET / HTTP/1.1'' @ [CR, LF, CR, LF, 0]"

definition ex_good :: mem where
  "ex_good = lit ''GET /hello?x=1&y=2 HTTP/1.1'' @ [CR, LF] @ lit ''Host: a'' @ [CR, LF] @
             lit ''Connection: close'' @ [CR, LF] @ lit ''Accept-Encoding: gzip'' @ [CR, LF, CR, LF] @
             lit ''GET / HTTP/1.1'' @ [CR, LF, CR, LF, 0]"

definition no_proxy :: proxy_parser where
  "no_proxy m request p = Some (Ptr p, m, request)"





text \<open>An allocator that always succeeds, and query strings for the key-value parser.\<close>

definition zeroed_malloc :: "nat \<Rightarrow> lwan_key_value list option" where
  "zeroed_malloc n = Some (replicate n \<lparr>key = NULL, kvalue = NULL\<rparr>)"

definition ex_query :: mem where
  "ex_query = lit ''y=2&x=%31&&z=a+b'' @ [0]"

definition ex_bad_escape :: mem where
  "ex_bad_escape = lit ''a=1&b=%00'' @ [0]"

definition ex_32_pairs :: mem where
  "ex_32_pairs = concat (replicate 31 (lit ''a=1&'')) @ lit ''a=1'' @ [0]"

definition ex_31_pairs :: mem where
  "ex_31_pairs = concat (replicate 30 (lit ''a=1&'')) @ lit ''a=1'' @ [0]"


definition ex_32_value :: lwan_value where
  "ex_32_value = \<lparr>val = Ptr 0, len = 127\<rparr>"

definition ex_bad_escape_value :: lwan_value where
  "ex_bad_escape_value = \<lparr>val = Ptr 0, len = 9\<rparr>"

definition sentinel :: lwan_key_value where
  "sentinel = \<lparr>key = NULL, kvalue = NULL\<rparr>"

definition ex_rewriter :: lwan_url_map where
  "ex_rewriter = \<lparr>prefix_len = 0, map_flags = {HANDLER_CAN_REWRITE_URL},
     handler = (\<lambda>m request. (HTTP_OK, m, request\<lparr>flags := insert RESPONSE_URL_REWRITTEN (flags request)\<rparr>))\<rparr>"

definition ex_socket :: "read_outcome list \<Rightarrow> nat \<Rightarrow> read_outcome" where
  "ex_socket outcomes k = (if k < length outcomes then outcomes ! k else ReadError EOTHER)"

definition ex_externals :: "read_outcome list \<Rightarrow> externals" where
  "ex_externals outcomes = \<lparr>ext_sock = ex_socket outcomes, ext_parse_proxy_protocol = no_proxy,
     ext_parse_long = (\<lambda>m p d. d), ext_coro_malloc = zeroed_malloc,
     lwan_trie_lookup_prefix = (\<lambda>path. Some ex_rewriter),
     lwan_http_authorize = (\<lambda>m request v. True),
     strptime_timegm = (\<lambda>d. None), sscanf_range = (\<lambda>r. (0, 0))\<rparr>"

definition ex_fresh :: "nat \<Rightarrow> driver_state" where
  "ex_fresh n = \<lparr>memory = replicate n 0, req = ex_request, trace = [], reads_done = 0\<rparr>"

definition ex_get :: "byte list" where
  "ex_get = lit ''GET /a HTTP/1.1'' @ [CR, LF, CR, LF]"

definition ex_path_state :: driver_state where
  "ex_path_state = \<lparr>memory = lit ''/a'' @ [0], req = ex_request\<lparr>url := \<lparr>val = Ptr 0, len = 2\<rparr>\<rparr>,
     trace = [], reads_done = 0\<rparr>"

definition ex_path_helper :: request_parser_helper where
  "ex_path_helper = init_helper \<lparr>val = Ptr 0, len = 2\<rparr> NULL"


definition ex_pipelined_wire :: "byte list" where
  "ex_pipelined_wire = lit ''GET /%00 HTTP/1.1'' @ [CR, LF, CR, LF] @
                       lit ''GET / HTTP/1.1'' @ [CR, LF, CR, LF]"

definition ex_tail_helper :: request_parser_helper where
  "ex_tail_helper = init_helper \<lparr>val = Ptr 0, len = 0\<rparr> (Ptr 39)"

definition ex_tail_state :: driver_state where
  "ex_tail_state = (ex_fresh 4097)\<lparr>req := ex_request\<lparr>conn_flags := {CONN_MUST_READ}\<rparr>,
                                   trace := [Yielded], reads_done := 1\<rparr>"

definition ex_read_helper :: request_parser_helper where
  "ex_read_helper = init_helper \<lparr>val = Ptr 0, len = 39\<rparr> NULL"

definition ex_read_state :: driver_state where
  "ex_read_state = (ex_fresh 4097)\<lparr>memory := ex_pipelined_wire @ replicate 4058 0, reads_done := 1\<rparr>"

definition ex_parsed_memory :: mem where
  "ex_parsed_memory = lit ''GET /%00'' @ [0] @ lit ''HTTP/1.1'' @ [0, LF, 0, LF] @
                      lit ''GET / HTTP/1.1'' @ [CR, LF, CR, LF] @ replicate 4058 0"

definition ex_parsed_request :: lwan_request where
  "ex_parsed_request = ex_request\<lparr>flags := {REQUEST_METHOD_GET}, url := \<lparr>val = Ptr 4, len = 4\<rparr>,
                                    original_url := \<lparr>val = Ptr 4, len = 4\<rparr>\<rparr>"

definition ex_parsed_helper :: request_parser_helper where
  "ex_parsed_helper = ex_read_helper\<lparr>next_request := Ptr 21\<rparr>"

definition ex_rewritten_state :: driver_state where
  "ex_rewritten_state = ex_path_state\<lparr>trace :=
     [TrieLookup (lit ''/a''), HandlerCalled, TrieLookup (lit ''/a''), HandlerCalled,
      TrieLookup (lit ''/a''), HandlerCalled, TrieLookup (lit ''/a''), HandlerCalled,
      TrieLookup (lit ''/a''), HandlerCalled, DefaultResponse HTTP_INTERNAL_ERROR]\<rparr>"

text \<open>Three sorted pairs \<open>foo=1\<close>, \<open>fooa=2\<close> and \<open>foob=3\<close>, with the sentinel after them.\<close>

definition ex_foo3_mem :: mem where
  "ex_foo3_mem = lit ''foo'' @ [0] @ lit ''1'' @ [0] @ lit ''fooa'' @ [0] @ lit ''2'' @ [0] @
                 lit ''foob'' @ [0] @ lit ''3'' @ [0]"

definition ex_foo3_kvs :: "lwan_key_value list" where
  "ex_foo3_kvs = [\<lparr>key = Ptr 0, kvalue = Ptr 4\<rparr>, \<lparr>key = Ptr 6, kvalue = Ptr 11\<rparr>,
                  \<lparr>key = Ptr 13, kvalue = Ptr 18\<rparr>, \<lparr>key = NULL, kvalue = NULL\<rparr>]"

text \<open>The fifth rewrite: the counter is 4 and the handler asks for another rewrite.\<close>

definition ex_fifth_helper :: request_parser_helper where
  "ex_fifth_helper = ex_path_helper\<lparr>urls_rewritten := 4\<rparr>"

definition ex_looked_up_state :: driver_state where
  "ex_looked_up_state = ex_path_state\<lparr>trace := [TrieLookup (lit ''/a'')]\<rparr>"

definition ex_rewrite_asked :: lwan_request where
  "ex_rewrite_asked = ex_request\<lparr>flags := {RESPONSE_URL_REWRITTEN}, url := \<lparr>val = Ptr 0, len = 2\<rparr>\<rparr>"

definition ex_fifth_state :: driver_state where
  "ex_fifth_state = ex_path_state\<lparr>trace :=
     [TrieLookup (lit ''/a''), HandlerCalled, DefaultResponse HTTP_INTERNAL_ERROR]\<rparr>"

section \<open>Lemmas on C strings\<close>




lemma drop_eq_ConsD:
  assumes "drop p m = x # xs"
  shows "p < length m \<and> m ! p = x \<and> drop (Suc p) m = xs"
proof -
  have lt: "p < length m" using assms by (cases "p < length m") auto
  have "m ! p = hd (drop p m)" using lt by (simp add: hd_drop_conv_nth)
  moreover have "drop (Suc p) m = tl (drop p m)" by (simp add: drop_Suc tl_drop)
  ultimately show ?thesis using lt assms by simp
qed

lemma cstr_split:
  assumes "0 \<in> set (drop p m)"
  shows "\<exists>rest. drop p m = cstr m p @ 0 # rest \<and> 0 \<notin> set (cstr m p)"
proof -
  let ?P = "\<lambda>b::byte. b \<noteq> 0"
  have ne: "dropWhile ?P (drop p m) \<noteq> []" using assms by (auto simp: dropWhile_eq_Nil_conv)
  then have "hd (dropWhile ?P (drop p m)) = 0" using hd_dropWhile[of ?P "drop p m"] by auto
  with ne have "dropWhile ?P (drop p m) = 0 # tl (dropWhile ?P (drop p m))"
    by (metis list.collapse)
  then have "drop p m = cstr m p @ 0 # tl (dropWhile ?P (drop p m))"
    unfolding cstr_def by (metis takeWhile_dropWhile_id)
  moreover have "0 \<notin> set (cstr m p)" unfolding cstr_def by (auto dest: set_takeWhileD)
  ultimately show ?thesis by blast
qed


lemma strrchr_from_absent:
  "c \<noteq> 0 \<Longrightarrow> drop p m = s @ 0 # rest \<Longrightarrow> 0 \<notin> set s \<Longrightarrow> c \<notin> set s \<Longrightarrow>
   strrchr_from m p c found = Some found"
proof (induction s arbitrary: p)
  case Nil
  then show ?case using drop_eq_ConsD[of p m 0 rest]
    by (subst strrchr_from.simps) simp
next
  case (Cons x xs)
  from Cons.prems(2) have *: "p < length m" "m ! p = x" "drop (Suc p) m = xs @ 0 # rest"
    using drop_eq_ConsD[of p m x "xs @ 0 # rest"] by auto
  have "strrchr_from m (Suc p) c found = Some found"
    using Cons.IH[OF Cons.prems(1) *(3)] Cons.prems by auto
  with * show ?case using Cons.prems by (subst strrchr_from.simps) auto
qed

lemma strrchr_from_last:
  "c \<noteq> 0 \<Longrightarrow> drop p m = pre @ c # post @ 0 # rest \<Longrightarrow> 0 \<notin> set pre \<Longrightarrow>
   0 \<notin> set post \<Longrightarrow> c \<notin> set post \<Longrightarrow>
   strrchr_from m p c found = Some (Ptr (p + length pre))"
proof (induction pre arbitrary: p found)
  case Nil
  then have *: "p < length m" "m ! p = c" "drop (Suc p) m = post @ 0 # rest"
    using drop_eq_ConsD[of p m c "post @ 0 # rest"] by auto
  have "strrchr_from m (Suc p) c (Ptr p) = Some (Ptr p)"
    using strrchr_from_absent[OF Nil.prems(1) *(3)] Nil.prems by auto
  with * show ?case using Nil.prems by (subst strrchr_from.simps) auto
next
  case (Cons x xs)
  from Cons.prems(2) have *: "p < length m" "m ! p = x" "drop (Suc p) m = xs @ c # post @ 0 # rest"
    using drop_eq_ConsD[of p m x "xs @ c # post @ 0 # rest"] by auto
  have "strrchr_from m (Suc p) c f = Some (Ptr (Suc p + length xs))" for f
    using Cons.IH[OF Cons.prems(1) *(3)] Cons.prems by auto
  with * show ?case using Cons.prems by (subst strrchr_from.simps) (auto simp: Let_def)
qed





lemma last_split_unique:
  assumes "xs @ c # ys = xs' @ c # ys'" "c \<notin> set ys" "c \<notin> set ys'"
  shows "xs = xs' \<and> ys = ys'"
proof -
  have "rev ys @ c # rev xs = rev ys' @ c # rev xs'"
    using arg_cong[OF assms(1), of rev] by simp
  moreover have "takeWhile (\<lambda>x. x \<noteq> c) (rev ys @ c # rev xs) = rev ys"
    using assms(2) by (subst takeWhile_append2) auto
  moreover have "takeWhile (\<lambda>x. x \<noteq> c) (rev ys' @ c # rev xs') = rev ys'"
    using assms(3) by (subst takeWhile_append2) auto
  ultimately have "rev ys = rev ys'" by simp
  then have "ys = ys'" by simp
  with assms(1) show ?thesis by simp
qed

lemma bytes_at_in: "p + n \<le> length m \<Longrightarrow> bytes_at m p n = Some (take n (drop p m))"
  by (simp add: bytes_at_def)

lemma get_http_method_POST:
  "b + 4 \<le> length m \<Longrightarrow>
   get_http_method m b = Some (if take 4 (drop b m) = lit ''POST'' then {REQUEST_METHOD_POST}
      else if take 4 (drop b m) = lit ''GET '' then {REQUEST_METHOD_GET}
      else if take 4 (drop b m) = lit ''HEAD'' then {REQUEST_METHOD_HEAD} else {})"
  by (simp add: get_http_method_def string_as_int32_def bytes_at_def MULTICHAR_CONSTANT_def lit_def)

lemma get_http_method_is_POST:
  "b + 4 \<le> length m \<Longrightarrow>
   get_http_method m b = Some meth \<Longrightarrow> meth = {REQUEST_METHOD_POST} \<longleftrightarrow> take 4 (drop b m) = lit ''POST''"
  by (auto simp: get_http_method_POST split: if_splits)

text \<open>The separator test of the finalizer, on a C string that starts with \<^verbatim>\<open>POST\<close>.\<close>
lemma post_separator:
  assumes nul: "0 \<in> set (drop b m)" and post: "take 4 (drop b m) = lit ''POST''"
  shows "(do { post_data_separator \<leftarrow> strrchr m b LF;
            case post_data_separator of
              NULL \<Rightarrow> Some False
            | Ptr s \<Rightarrow> if s < 3 then None
                else do { before \<leftarrow> bytes_at m (s - 3) 3; Some (before = [CR, LF, CR]) } })
     = Some (\<exists>pre post. cstr m b = pre @ [CR, LF, CR, LF] @ post \<and> LF \<notin> set post)"
proof -
  obtain rest where d: "drop b m = cstr m b @ 0 # rest" and nz: "0 \<notin> set (cstr m b)"
    using cstr_split[OF nul] by blast
  let ?s = "cstr m b"
  have LF0: "LF \<noteq> 0" by (simp add: LF_def)
  show ?thesis
  proof (cases "LF \<in> set ?s")
    case False
    have "strrchr m b LF = Some NULL"
      unfolding strrchr_def using strrchr_from_absent[OF LF0 d nz False] .
    moreover have "\<not> (\<exists>pre post. ?s = pre @ [CR, LF, CR, LF] @ post \<and> LF \<notin> set post)"
      using False by auto
    ultimately show ?thesis by simp
  next
    case True
    then obtain pre' post' where sp: "?s = pre' @ LF # post'" and nl: "LF \<notin> set post'"
      using split_list_last[of LF ?s] by blast
    have d': "drop b m = pre' @ LF # post' @ 0 # rest" using d sp by simp
    have r: "strrchr m b LF = Some (Ptr (b + length pre'))"
      unfolding strrchr_def using strrchr_from_last[OF LF0 d'] nz sp nl by auto
    have t4: "take 4 (pre' @ LF # post' @ 0 # rest) = [80, 79, 83, 84]"
      using post d' by (simp add: lit_def)
    have l4: "4 \<le> length pre'"
    proof (rule ccontr)
      assume "\<not> 4 \<le> length pre'"
      then obtain k where k: "4 - length pre' = Suc k" by (cases "4 - length pre'") auto
      have "LF \<in> set (take 4 (pre' @ LF # post' @ 0 # rest))"
        by (simp add: k)
      then show False unfolding t4 by (simp add: LF_def)
    qed
    have bl: "b \<le> length m" using d by (cases "b \<le> length m") auto
    have len: "length m = b + length pre' + 1 + length post' + 1 + length rest"
      using arg_cong[OF d', of length] bl by simp
    have dr: "drop (b + length pre' - 3) m = drop (length pre' - 3) pre' @ LF # post' @ 0 # rest"
    proof -
      have "drop (b + length pre' - 3) m = drop (length pre' - 3) (drop b m)"
        using l4 by (simp add: add.commute)
      then show ?thesis using d' l4 by simp
    qed
    have bt: "bytes_at m (b + length pre' - 3) 3 = Some (drop (length pre' - 3) pre')"
      using l4 len dr by (simp add: bytes_at_def)
    have "(drop (length pre' - 3) pre' = [CR, LF, CR]) \<longleftrightarrow>
          (\<exists>pre post. ?s = pre @ [CR, LF, CR, LF] @ post \<and> LF \<notin> set post)" (is "?L \<longleftrightarrow> ?R")
    proof
      assume ?L
      then have "pre' = take (length pre' - 3) pre' @ [CR, LF, CR]"
        by (metis append_take_drop_id)
      then have "?s = take (length pre' - 3) pre' @ [CR, LF, CR, LF] @ post'"
        using sp by (metis append.assoc append_Cons append_Nil)
      with nl show ?R by blast
    next
      assume ?R
      then obtain pre post where e: "?s = pre @ [CR, LF, CR, LF] @ post" and n: "LF \<notin> set post"
        by blast
      then have "pre' @ LF # post' = (pre @ [CR, LF, CR]) @ LF # post" using sp by simp
      from last_split_unique[OF this nl n] have "pre' = pre @ [CR, LF, CR]" by simp
      then show ?L by simp
    qed
    then show ?thesis using r bt l4 by simp
  qed
qed



text \<open>
  C4 (as amended).  The finalizer tests in this order: fewer than four bytes resident gives
  \<open>FINALIZER_YIELD_TRY_AGAIN\<close>; otherwise a full buffer (\<open>total_read = buffer_size\<close>) gives
  \<open>FINALIZER_ERROR_TOO_LARGE\<close>; otherwise a pipelined tail gives \<open>FINALIZER_DONE\<close> and the
  tail pointer is reset; otherwise \<open>FINALIZER_DONE\<close> if the last four resident bytes are
  CR LF CR LF, or if the buffer starts with \<^verbatim>\<open>POST\<close> and the last LF of its C string is
  preceded by CR LF CR; otherwise \<open>FINALIZER_TRY_AGAIN\<close>.  The resident bytes lie inside the
  allocation and the buffer holds a NUL.
\<close>

theorem read_request_finalizer_order:
  assumes "val (buffer helper) = Ptr b" and "b + total_read \<le> length m"
    and "0 \<in> set (drop b m)"
  shows "read_request_finalizer m total_read buffer_size helper =
     (if total_read < 4 then Some (FINALIZER_YIELD_TRY_AGAIN, helper)
      else if total_read = buffer_size then Some (FINALIZER_ERROR_TOO_LARGE, helper)
      else if next_request helper \<noteq> NULL then
        Some (FINALIZER_DONE, helper\<lparr>next_request := NULL\<rparr>)
      else if take 4 (drop (b + total_read - 4) m) = [CR, LF, CR, LF] then
        Some (FINALIZER_DONE, helper)
      else if take 4 (drop b m) = lit ''POST'' \<and>
              (\<exists>pre post. cstr m b = pre @ [CR, LF, CR, LF] @ post \<and> LF \<notin> set post) then
        Some (FINALIZER_DONE, helper)
      else Some (FINALIZER_TRY_AGAIN, helper))"
proof (cases "total_read < 4 \<or> total_read = buffer_size \<or> next_request helper \<noteq> NULL")
  case True
  then show ?thesis by (auto simp: read_request_finalizer_def)
next
  case False
  then have ge: "4 \<le> total_read" by simp
  have tail: "bytes_at m (b + total_read - 4) 4 = Some (take 4 (drop (b + total_read - 4) m))"
    using ge assms(2) by (simp add: bytes_at_def)
  have b4: "b + 4 \<le> length m" using ge assms(2) by simp
  show ?thesis
  proof (cases "take 4 (drop (b + total_read - 4) m) = [CR, LF, CR, LF]")
    case True
    with False tail assms(1) show ?thesis
      by (simp add: read_request_finalizer_def deref_def)
  next
    case notail: False
    show ?thesis
    proof (cases "take 4 (drop b m) = lit ''POST''")
      case nopost: False
      then have "get_http_method m b \<noteq> Some {REQUEST_METHOD_POST}"
        using get_http_method_is_POST[OF b4] by auto
      moreover obtain meth where "get_http_method m b = Some meth"
        using get_http_method_POST[OF b4] by simp
      ultimately show ?thesis using False tail assms(1) notail nopost
        by (simp add: read_request_finalizer_def deref_def)
    next
      case True
      then have gm: "get_http_method m b = Some {REQUEST_METHOD_POST}"
        using get_http_method_POST[OF b4] by simp
      note ps = post_separator[OF assms(3) True]
      show ?thesis
      proof (cases "\<exists>pre post. cstr m b = pre @ [CR, LF, CR, LF] @ post \<and> LF \<notin> set post")
        case sep: True
        with ps have "(do { post_data_separator \<leftarrow> strrchr m b LF;
            case post_data_separator of
              NULL \<Rightarrow> Some (FINALIZER_TRY_AGAIN, helper)
            | Ptr s \<Rightarrow> if s < 3 then None
                else do { before \<leftarrow> bytes_at m (s - 3) 3;
                          if before = [CR, LF, CR] then Some (FINALIZER_DONE, helper)
                          else Some (FINALIZER_TRY_AGAIN, helper) } })
           = Some (FINALIZER_DONE, helper)"
          by (auto simp: bind_eq_Some_conv split: ptr.splits if_splits)
        with False tail assms(1) notail True gm sep show ?thesis
          by (simp add: read_request_finalizer_def deref_def)
      next
        case sep: False
        with ps have "(do { post_data_separator \<leftarrow> strrchr m b LF;
            case post_data_separator of
              NULL \<Rightarrow> Some (FINALIZER_TRY_AGAIN, helper)
            | Ptr s \<Rightarrow> if s < 3 then None
                else do { before \<leftarrow> bytes_at m (s - 3) 3;
                          if before = [CR, LF, CR] then Some (FINALIZER_DONE, helper)
                          else Some (FINALIZER_TRY_AGAIN, helper) } })
           = Some (FINALIZER_TRY_AGAIN, helper)"
          by (auto simp: bind_eq_Some_conv split: ptr.splits if_splits)
        with False tail assms(1) notail True gm sep show ?thesis
          by (simp add: read_request_finalizer_def deref_def)
      qed
    qed
  qed
qed


theorem read_request_finalizer_order_witness:
  "val (buffer ex_post_helper) = Ptr 0 \<and>
   0 + 23 \<le> length ex_post \<and> 0 \<in> set (drop 0 ex_post) \<and>
   read_request_finalizer ex_post 23 DEFAULT_BUFFER_SIZE ex_post_helper
     = Some (FINALIZER_DONE, ex_post_helper)"
proof -
  have c: "cstr ex_post 0 = lit ''POST /f HTTP/1.1'' @ [CR, LF, CR, LF] @ lit ''a=1''"
    by (simp add: ex_post_def cstr_def lit_def CR_def LF_def)
  have h1: "val (buffer ex_post_helper) = Ptr 0" by (simp add: ex_post_helper_def init_helper_def)
  have h2: "0 + 23 \<le> length ex_post" by (simp add: ex_post_def lit_def)
  have h3: "0 \<in> set (drop 0 ex_post)" by (simp add: ex_post_def)
  have sep: "\<exists>pre post. cstr ex_post 0 = pre @ [CR, LF, CR, LF] @ post \<and> LF \<notin> set post"
    unfolding c
    by (rule exI[of _ "lit ''POST /f HTTP/1.1''"], rule exI[of _ "lit ''a=1''"])
       (simp add: lit_def LF_def)
  have p: "take 4 (drop 0 ex_post) = lit ''POST''" by (simp add: ex_post_def lit_def)
  have nt: "take 4 (drop (0 + 23 - 4) ex_post) \<noteq> [CR, LF, CR, LF]"
    by (simp add: ex_post_def lit_def CR_def LF_def)
  have nn: "next_request ex_post_helper = NULL" by (simp add: ex_post_helper_def init_helper_def)
  show ?thesis
    using read_request_finalizer_order[OF h1 h2 h3, of DEFAULT_BUFFER_SIZE] h1 h2 h3 sep p nt nn
    by (simp add: DEFAULT_BUFFER_SIZE_def)
qed

text \<open>
  C4 as stated fails: with a pipelined tail present and the buffer full, the finalizer
  declares \<open>FINALIZER_ERROR_TOO_LARGE\<close>, not \<open>FINALIZER_DONE\<close>, and the tail pointer stays.
\<close>

theorem read_request_finalizer_full_counterexample:
  "next_request ex_full_helper \<noteq> NULL \<and>
   read_request_finalizer (replicate (Suc DEFAULT_BUFFER_SIZE) 0)
       DEFAULT_BUFFER_SIZE DEFAULT_BUFFER_SIZE ex_full_helper
     = Some (FINALIZER_ERROR_TOO_LARGE, ex_full_helper)"
  by (simp add: read_request_finalizer_def DEFAULT_BUFFER_SIZE_def ex_full_helper_def
        init_helper_def)

section \<open>The body reader\<close>

lemma size_t_nat: "k < 2 ^ 64 \<Longrightarrow> size_t (int k) = k"
proof -
  assume "k < 2 ^ 64"
  then have "k mod 2 ^ 64 = k" by (rule mod_less)
  moreover have "int k mod 2 ^ 64 = int (k mod 2 ^ 64)"
    by (metis of_nat_mod of_nat_numeral of_nat_power)
  ultimately show ?thesis unfolding size_t_def by (metis nat_int)
qed

lemma size_t_diff:
  assumes "nr \<le> e" and "e < 2 ^ 64"
  shows "size_t (int e - int nr) = e - nr"
proof -
  have "int e - int nr = int (e - nr)" using assms(1) by (rule of_nat_diff[symmetric])
  moreover have "e - nr < 2 ^ 64" using assms(2) by (rule less_imp_diff_less)
  ultimately show ?thesis using size_t_nat by metis
qed

text \<open>
  C5.  With the tail pointer set, a Content-Length header recorded and \<open>l\<close> the value
  \<^verbatim>\<open>parse_long\<close> gives for it, where \<open>have\<close> is the number of bytes resident after the request
  head: \<open>read_post_data\<close> returns \<open>HTTP_OK\<close> (recording the body slice and advancing the tail
  pointer) if \<open>0 \<le> l \<le> DEFAULT_BUFFER_SIZE\<close> and \<open>have = l\<close>; 413 if \<open>l > have\<close>; 501 if
  \<open>l < have\<close>; and 413 if \<open>l > DEFAULT_BUFFER_SIZE\<close>.
\<close>

theorem read_post_data_content_length:
  assumes "next_request helper = Ptr nr" and "val (content_length helper) = Ptr cl"
    and "val (buffer helper) = Ptr b" and "nr \<le> b + len (buffer helper)"
    and "b + len (buffer helper) < 2 ^ 64"
    and "l = parse_long m cl (int DEFAULT_BUFFER_SIZE)"
    and "have = b + len (buffer helper) - nr"
  shows "(0 \<le> l \<and> l \<le> int DEFAULT_BUFFER_SIZE \<and> int have = l \<longrightarrow>
            read_post_data parse_long m helper =
              Some (HTTP_OK, helper\<lparr>post_data := \<lparr>val = Ptr nr, len = nat l\<rparr>,
                                     next_request := Ptr (nr + nat l)\<rparr>)) \<and>
         (0 \<le> l \<and> l \<le> int DEFAULT_BUFFER_SIZE \<and> l > int have \<longrightarrow>
            read_post_data parse_long m helper = Some (HTTP_TOO_LARGE, helper)) \<and>
         (0 \<le> l \<and> l \<le> int DEFAULT_BUFFER_SIZE \<and> l < int have \<longrightarrow>
            read_post_data parse_long m helper = Some (HTTP_NOT_IMPLEMENTED, helper)) \<and>
         (l > int DEFAULT_BUFFER_SIZE \<longrightarrow>
            read_post_data parse_long m helper = Some (HTTP_TOO_LARGE, helper)) \<and>
         status_code HTTP_TOO_LARGE = 413 \<and> status_code HTTP_NOT_IMPLEMENTED = 501"
proof -
  have "size_t (int (b + len (buffer helper)) - int nr) = have"
    using size_t_diff[OF assms(4,5)] assms(7) by simp
  then show ?thesis using assms(1-3,6)
    by (auto simp: read_post_data_def Let_def deref_def)
qed

theorem read_post_data_content_length_witness:
  "read_post_data (\<lambda>m p d. 3) ex_post ex_body_helper =
     Some (HTTP_OK, ex_body_helper\<lparr>post_data := \<lparr>val = Ptr 20, len = 3\<rparr>,
                                    next_request := Ptr 23\<rparr>) \<and>
   read_post_data (\<lambda>m p d. 7) ex_post ex_body_helper = Some (HTTP_TOO_LARGE, ex_body_helper) \<and>
   read_post_data (\<lambda>m p d. 1) ex_post ex_body_helper =
     Some (HTTP_NOT_IMPLEMENTED, ex_body_helper) \<and>
   read_post_data (\<lambda>m p d. 5000) ex_post ex_body_helper = Some (HTTP_TOO_LARGE, ex_body_helper)"
proof -
  have h: "next_request ex_body_helper = Ptr 20" "val (content_length ex_body_helper) = Ptr 5"
    "val (buffer ex_body_helper) = Ptr 0" "20 \<le> 0 + len (buffer ex_body_helper)"
    "0 + len (buffer ex_body_helper) < 2 ^ 64" "(3::nat) = 0 + len (buffer ex_body_helper) - 20"
    by (simp_all add: ex_body_helper_def init_helper_def)
  show ?thesis
    using read_post_data_content_length[OF h(1-5) _ h(6), of 3 "\<lambda>m p d. 3" ex_post]
      read_post_data_content_length[OF h(1-5) _ h(6), of 7 "\<lambda>m p d. 7" ex_post]
      read_post_data_content_length[OF h(1-5) _ h(6), of 1 "\<lambda>m p d. 1" ex_post]
      read_post_data_content_length[OF h(1-5) _ h(6), of 5000 "\<lambda>m p d. 5000" ex_post]
    by (simp add: DEFAULT_BUFFER_SIZE_def)
qed

text \<open>
  C10.  \<open>read_post_data\<close> returns \<open>HTTP_BAD_REQUEST\<close> and leaves the helper, and so its
  \<open>post_data\<close> slice, as it was when the tail pointer is not set, when no Content-Length header
  was recorded, or when the parsed Content-Length is negative.
\<close>

theorem read_post_data_bad_request:
  assumes "next_request helper = NULL \<or> val (content_length helper) = NULL \<or>
     (\<exists>cl. val (content_length helper) = Ptr cl \<and> parse_long m cl (int DEFAULT_BUFFER_SIZE) < 0)"
  shows "read_post_data parse_long m helper = Some (HTTP_BAD_REQUEST, helper) \<and>
         status_code HTTP_BAD_REQUEST = 400"
  using assms by (auto simp: read_post_data_def Let_def split: ptr.splits)

theorem read_post_data_bad_request_witness:
  "read_post_data (\<lambda>m p d. 3) ex_post (ex_body_helper\<lparr>next_request := NULL\<rparr>) =
     Some (HTTP_BAD_REQUEST, ex_body_helper\<lparr>next_request := NULL\<rparr>) \<and>
   read_post_data (\<lambda>m p d. 3) ex_post (ex_body_helper\<lparr>content_length := no_value\<rparr>) =
     Some (HTTP_BAD_REQUEST, ex_body_helper\<lparr>content_length := no_value\<rparr>) \<and>
   read_post_data (\<lambda>m p d. - 1) ex_post ex_body_helper = Some (HTTP_BAD_REQUEST, ex_body_helper)"
proof -
  have a: "next_request (ex_body_helper\<lparr>next_request := NULL\<rparr>) = NULL" by simp
  have b: "val (content_length (ex_body_helper\<lparr>content_length := no_value\<rparr>)) = NULL"
    by (simp add: no_value_def)
  have c: "\<exists>cl. val (content_length ex_body_helper) = Ptr cl \<and>
             (\<lambda>m p d. - 1) ex_post cl (int DEFAULT_BUFFER_SIZE) < (0::int)"
    by (simp add: ex_body_helper_def)
  show ?thesis
    using read_post_data_bad_request[OF disjI1, OF a, of "\<lambda>m p d. 3" ex_post]
      read_post_data_bad_request[OF disjI2, OF disjI1, OF b, of "\<lambda>m p d. 3" ex_post]
      read_post_data_bad_request[OF disjI2, OF disjI2, OF c]
    by simp
qed

section \<open>Percent decoding in place\<close>

lemma peek_window:
  assumes "drop g t = xs" and "k < length xs"
  shows "peek (pre @ out @ t) (length pre + length out + g + k) = Some (xs ! k)"
    and "(pre @ out @ t) ! (length pre + length out + g + k) = xs ! k"
proof -
  have gk: "g + k < length t" using assms by auto
  have "(pre @ out @ t) ! (length pre + length out + g + k) = t ! (g + k)"
    by (simp add: nth_append add.assoc)
  also have "\<dots> = xs ! k" using assms gk by auto
  finally show "(pre @ out @ t) ! (length pre + length out + g + k) = xs ! k" .
  then show "peek (pre @ out @ t) (length pre + length out + g + k) = Some (xs ! k)"
    using gk by (simp add: peek_def)
qed

lemma poke_window:
  assumes "t \<noteq> []"
  shows "poke (pre @ out @ t) (length pre + length out) b = Some (pre @ (out @ [b]) @ tl t)"
proof -
  obtain x t' where t: "t = x # t'" using assms by (cases t) auto
  have "(pre @ out @ x # t')[length pre + length out := b] = pre @ out @ b # t'"
    by (simp add: list_update_append)
  then show ?thesis by (simp add: poke_def t)
qed

lemma drop_tl_window: "drop g t = x # xs \<Longrightarrow> drop g (tl t) = xs"
  by (metis drop_Suc tl_drop list.sel(3))

lemma is_hex_digit_0: "\<not> is_hex_digit 0"
  by (simp add: is_hex_digit_def word_sle_eq)

lemma url_decode_loop_end:
  "peek m ch = Some 0 \<Longrightarrow>
   url_decode_loop m str ch decoded = map_option (\<lambda>m'. (m', decoded - str)) (poke m decoded 0)"
  by (subst url_decode_loop.simps) simp

lemma url_decode_loop_plain:
  assumes "peek m ch = Some c" and "c \<noteq> 0" and "c = 37 \<longrightarrow> hex_escape m ch = Some False"
    and "poke m decoded (if c = 43 then 32 else c) = Some m'"
  shows "url_decode_loop m str ch decoded = url_decode_loop m' str (Suc ch) (Suc decoded)"
proof (cases "c = 37")
  case True
  with assms show ?thesis by (subst url_decode_loop.simps) simp
next
  case False
  with assms show ?thesis by (subst url_decode_loop.simps) (simp split: if_splits)
qed

lemma url_decode_loop_escape:
  assumes "peek m ch = Some 37" and "hex_escape m ch = Some True"
    and "tmp = push_bit 4 (decode_hex_digit (m ! (ch + 1))) OR decode_hex_digit (m ! (ch + 2))"
  shows "url_decode_loop m str ch decoded =
     (if tmp = 0 then Some (m, 0)
      else case poke m decoded tmp of None \<Rightarrow> None
           | Some m' \<Rightarrow> url_decode_loop m' str (ch + 3) (Suc decoded))"
  using assms by (subst url_decode_loop.simps) (simp add: Let_def)

lemma url_decode_loop_refines:
  assumes "drop g t = rem @ 0 # post" and "0 \<notin> set rem"
  shows "(url_decode_spec rem = None \<longrightarrow>
            (\<exists>m'. url_decode_loop (pre @ out @ t) str (length pre + length out + g)
                     (length pre + length out) = Some (m', 0))) \<and>
         (\<forall>d. url_decode_spec rem = Some d \<longrightarrow>
            url_decode_loop (pre @ out @ t) str (length pre + length out + g)
                (length pre + length out) =
              Some (pre @ out @ d @ 0 # drop (Suc (length d)) t,
                    length pre + length out + length d - str))"
  using assms
proof (induction rem arbitrary: out t g rule: url_decode_spec.induct)
  case 1
  then have d: "drop g t = 0 # post" by simp
  then have tne: "t \<noteq> []" by auto
  have pk: "peek (pre @ out @ t) (length pre + length out + g) = Some 0"
    using peek_window(1)[OF d, of 0 pre out] by simp
  have "drop (Suc 0) t = tl t" by (simp add: drop_Suc)
  then show ?case
    by (simp add: url_decode_loop_end[OF pk] poke_window[OF tne])
next
  case (2 c h1 h2 cs)
  let ?m = "pre @ out @ t"
  let ?ch = "length pre + length out + g"
  have d: "drop g t = c # h1 # h2 # cs @ 0 # post" using 2 by simp
  then have tne: "t \<noteq> []" by auto
  have c0: "c \<noteq> 0" and h0: "0 \<notin> set cs" "0 \<notin> set (h1 # h2 # cs)" using 2 by auto
  have pk: "peek ?m ?ch = Some c" using peek_window(1)[OF d, of 0 pre out] by simp
  have pk1: "peek ?m (?ch + 1) = Some h1" "?m ! (?ch + 1) = h1"
    using peek_window[OF d, of 1 pre out] by simp_all
  have pk2: "peek ?m (?ch + 2) = Some h2" "?m ! (?ch + 2) = h2"
    using peek_window[OF d, of 2 pre out] by simp_all
  have d1: "drop g (tl t) = h1 # h2 # cs @ 0 # post" using drop_tl_window[OF d] .
  have d3: "drop (g + 2) (tl t) = cs @ 0 # post"
  proof -
    have "drop (g + 2) (tl t) = drop 2 (drop g (tl t))" by (simp add: add.commute)
    then show ?thesis using d1 by simp
  qed
  have dd: "drop (Suc n) (tl t) = drop (Suc (Suc n)) t" for n by (simp add: drop_Suc tl_drop)
  show ?case
  proof (cases "c = 37 \<and> is_hex_digit h1 \<and> is_hex_digit h2")
    case True
    let ?b = "push_bit 4 (decode_hex_digit h1) OR decode_hex_digit h2"
    have he: "hex_escape ?m ?ch = Some True" using True pk1(1) pk2(1) by (simp add: hex_escape_def)
    have pk37: "peek ?m ?ch = Some 37" using pk True by simp
    have tmp: "?b = push_bit 4 (decode_hex_digit (?m ! (?ch + 1))) OR decode_hex_digit (?m ! (?ch + 2))"
      by (simp only: pk1(2) pk2(2))
    note step = url_decode_loop_escape[OF pk37 he tmp, of str "length pre + length out"]
    show ?thesis
    proof (cases "?b = 0")
      case b0: True
      then show ?thesis using True unfolding step by (simp add: Let_def)
    next
      case b1: False
      have a1: "?ch + 3 = length pre + length (out @ [?b]) + (g + 2)" by simp
      have a2: "Suc (length pre + length out) = length pre + length (out @ [?b])" by simp
      have step': "url_decode_loop ?m str ?ch (length pre + length out) =
            url_decode_loop (pre @ (out @ [?b]) @ tl t) str (length pre + length (out @ [?b]) + (g + 2))
               (length pre + length (out @ [?b]))"
        unfolding step poke_window[OF tne] a1 a2 using b1 by simp
      note IH = "2.IH"(1)[OF True refl b1 d3 h0(1), of "out @ [?b]"]
      have sp: "url_decode_spec (c # h1 # h2 # cs) = map_option ((#) ?b) (url_decode_spec cs)"
        using True b1 by (simp add: Let_def)
      show ?thesis unfolding step' sp using IH
        by (auto simp: dd)
    qed
  next
    case False
    let ?c = "if c = 43 then 32 else c"
    have he: "c = 37 \<longrightarrow> hex_escape ?m ?ch = Some False"
      using False pk1(1) pk2(1) by (auto simp: hex_escape_def)
    have a1: "Suc ?ch = length pre + length (out @ [?c]) + g" by simp
    have a2: "Suc (length pre + length out) = length pre + length (out @ [?c])" by simp
    note step = url_decode_loop_plain[OF pk c0 he poke_window[OF tne], of str, unfolded a1 a2]
    have d1': "drop g (tl t) = (h1 # h2 # cs) @ 0 # post" using d1 by simp
    note IH = "2.IH"(2)[OF False d1' h0(2), of "out @ [?c]"]
    have sp: "url_decode_spec (c # h1 # h2 # cs) = map_option ((#) ?c) (url_decode_spec (h1 # h2 # cs))"
      using False by auto
    show ?thesis unfolding step sp using IH
      by (auto simp: dd)
  qed
next
  case (3 c)
  let ?m = "pre @ out @ t"
  let ?ch = "length pre + length out + g"
  have d: "drop g t = c # [] @ 0 # post" using "3" by simp
  then have tne: "t \<noteq> []" by auto
  have c0: "c \<noteq> 0" using "3" by auto
  have pk: "peek ?m ?ch = Some c" using peek_window(1)[OF d, of 0 pre out] by simp
  have pk1: "peek ?m (?ch + 1) = Some 0"
    using peek_window[OF d, of 1 pre out] by simp_all
  have d1: "drop g (tl t) = [] @ 0 # post" using drop_tl_window[OF d] .
  have dd: "drop (Suc n) (tl t) = drop (Suc (Suc n)) t" for n by (simp add: drop_Suc tl_drop)
  let ?c = "if c = 43 then 32 else c"
  have he: "c = 37 \<longrightarrow> hex_escape ?m ?ch = Some False"
    using pk1 by (auto simp: hex_escape_def is_hex_digit_0)
  have a1: "Suc ?ch = length pre + length (out @ [?c]) + g" by simp
  have a2: "Suc (length pre + length out) = length pre + length (out @ [?c])" by simp
  note step = url_decode_loop_plain[OF pk c0 he poke_window[OF tne], of str, unfolded a1 a2]
  have e: "0 \<notin> set ([]::byte list)" by simp
  note IH = "3.IH"[OF d1 e, of "out @ [?c]"]
  show ?case unfolding step using IH by (auto simp: dd)
next
  case (4 c h)
  let ?m = "pre @ out @ t"
  let ?ch = "length pre + length out + g"
  have d: "drop g t = c # [h] @ 0 # post" using "4" by simp
  then have tne: "t \<noteq> []" by auto
  have c0: "c \<noteq> 0" and h0: "0 \<notin> set [h]" using "4" by auto
  have pk: "peek ?m ?ch = Some c" using peek_window(1)[OF d, of 0 pre out] by simp
  have pk1: "peek ?m (?ch + 1) = Some h"
    using peek_window[OF d, of 1 pre out] by simp_all
  have pk2: "peek ?m (?ch + 2) = Some 0"
    using peek_window[OF d, of 2 pre out] by simp_all
  have d1: "drop g (tl t) = [h] @ 0 # post" using drop_tl_window[OF d] .
  have dd: "drop (Suc n) (tl t) = drop (Suc (Suc n)) t" for n by (simp add: drop_Suc tl_drop)
  let ?c = "if c = 43 then 32 else c"
  have he: "c = 37 \<longrightarrow> hex_escape ?m ?ch = Some False"
    using pk1 pk2 by (auto simp: hex_escape_def is_hex_digit_0)
  have a1: "Suc ?ch = length pre + length (out @ [?c]) + g" by simp
  have a2: "Suc (length pre + length out) = length pre + length (out @ [?c])" by simp
  note step = url_decode_loop_plain[OF pk c0 he poke_window[OF tne], of str, unfolded a1 a2]
  note IH = "4.IH"[OF d1 h0, of "out @ [?c]"]
  show ?case unfolding step using IH by (auto simp: dd)
qed

lemma url_decode_spec_no_NUL:
  "url_decode_spec s = Some d \<Longrightarrow> 0 \<notin> set s \<Longrightarrow> 0 \<notin> set d"
proof (induction s arbitrary: d rule: url_decode_spec.induct)
  case 1
  then show ?case by simp
next
  case (2 c h1 h2 cs)
  then show ?case by (auto simp: Let_def split: if_splits)
next
  case (3 c)
  then show ?case by (auto split: if_splits)
next
  case (4 c h)
  then show ?case by (auto split: if_splits)
qed

lemma not_hex_percent: "\<not> is_hex_digit 37"
  by (simp add: is_hex_digit_def word_sle_eq)

lemma hex_zero: "is_hex_digit 48" "push_bit 4 (decode_hex_digit 48) OR decode_hex_digit 48 = 0"
  by (simp_all add: is_hex_digit_def decode_hex_digit_def word_sle_eq)

lemma url_decode_spec_percent00:
  "url_decode_spec (xs @ [37, 48, 48] @ ys) = None"
proof (induction "length xs" arbitrary: xs rule: less_induct)
  case less
  show ?case
  proof (cases xs)
    case Nil
    then show ?thesis by (simp add: hex_zero)
  next
    case (Cons a xs1)
    note c1 = Cons
    show ?thesis
    proof (cases xs1)
      case Nil
      have "url_decode_spec ([] @ [37, 48, 48] @ ys) = None" by (simp add: hex_zero)
      then show ?thesis using c1 Nil by (simp add: not_hex_percent)
    next
      case (Cons b xs2)
      note c2 = Cons
      have ih1: "url_decode_spec (xs1 @ [37, 48, 48] @ ys) = None"
        using less[of xs1] c1 by simp
      show ?thesis
      proof (cases xs2)
        case Nil
        then show ?thesis using c1 c2 ih1 by (simp add: not_hex_percent)
      next
        case (Cons c xs3)
        have ih3: "url_decode_spec (xs3 @ [37, 48, 48] @ ys) = None"
          using less[of xs3] c1 c2 Cons by simp
        show ?thesis using c1 c2 Cons ih1 ih3 by (simp add: Let_def)
      qed
    qed
  qed
qed

text \<open>
  C7 (as amended).  On a NUL-terminated string \<open>s\<close>, \<open>url_decode\<close> decodes in place
  (\<open>+\<close> becomes a space, \<open>%HH\<close> with two hex digits becomes the byte, every other byte,
  a \<open>%\<close> not followed by two hex digits included, is copied), writes the terminating NUL
  and returns the new length; it returns 0 whenever some escape decodes to NUL, which
  every string containing \<open>%00\<close> does.
\<close>

theorem url_decode_in_place:
  assumes "0 \<notin> set s"
  shows "(\<forall>d. url_decode_spec s = Some d \<longrightarrow>
            url_decode (pre @ s @ 0 # post) (Ptr (length pre)) =
              Some (pre @ d @ 0 # drop (Suc (length d)) (s @ 0 # post), length d) \<and>
            0 \<notin> set d) \<and>
         (url_decode_spec s = None \<longrightarrow>
            (\<exists>m'. url_decode (pre @ s @ 0 # post) (Ptr (length pre)) = Some (m', 0))) \<and>
         ((\<exists>xs ys. s = xs @ lit ''%00'' @ ys) \<longrightarrow> url_decode_spec s = None)"
proof -
  have d: "drop 0 (s @ 0 # post) = s @ 0 # post" by simp
  from url_decode_loop_refines[OF d assms, of pre "[]" "length pre"]
  have "(url_decode_spec s = None \<longrightarrow>
            (\<exists>m'. url_decode_loop (pre @ s @ 0 # post) (length pre) (length pre) (length pre) = Some (m', 0))) \<and>
         (\<forall>d. url_decode_spec s = Some d \<longrightarrow>
            url_decode_loop (pre @ s @ 0 # post) (length pre) (length pre) (length pre) =
              Some (pre @ d @ 0 # drop (Suc (length d)) (s @ 0 # post), length d))"
    by simp
  moreover have "(\<exists>xs ys. s = xs @ lit ''%00'' @ ys) \<longrightarrow> url_decode_spec s = None"
    using url_decode_spec_percent00 by (auto simp: lit_def)
  ultimately show ?thesis using url_decode_spec_no_NUL[OF _ assms]
    by (simp add: url_decode_def)
qed


theorem url_decode_in_place_witness:
  "0 \<notin> set ex_escaped \<and> 0 \<notin> set ex_nul_escape \<and>
   url_decode (ex_escaped @ [0]) (Ptr 0) = Some (lit ''a b c'' @ [0] @ lit ''c'' @ [0], 5) \<and>
   (\<exists>m'. url_decode (ex_nul_escape @ [0]) (Ptr 0) = Some (m', 0))"
proof -
  have n1: "0 \<notin> set ex_escaped" and n2: "0 \<notin> set ex_nul_escape"
    by (simp_all add: ex_escaped_def ex_nul_escape_def lit_def)
  have s1: "url_decode_spec ex_escaped = Some (lit ''a b c'')"
    by (simp add: ex_escaped_def lit_def is_hex_digit_def decode_hex_digit_def word_sle_eq)
  have s2: "\<exists>xs ys. ex_nul_escape = xs @ lit ''%00'' @ ys"
    by (rule exI[of _ "lit ''ab''"], rule exI[of _ "[]"]) (simp add: ex_nul_escape_def lit_def)
  have A: "url_decode ([] @ ex_escaped @ 0 # []) (Ptr (length ([]::byte list))) =
      Some ([] @ lit ''a b c'' @ 0 # drop (Suc (length (lit ''a b c''))) (ex_escaped @ 0 # []),
            length (lit ''a b c''))"
    using url_decode_in_place[OF n1, of "[]" "[]"] s1 by auto
  have B: "\<exists>m'. url_decode ([] @ ex_nul_escape @ 0 # []) (Ptr (length ([]::byte list))) = Some (m', 0)"
    using url_decode_in_place[OF n2, of "[]" "[]"] s2 by auto
  have A': "url_decode (ex_escaped @ [0]) (Ptr 0) = Some (lit ''a b c'' @ [0] @ lit ''c'' @ [0], 5)"
    using A by (simp add: ex_escaped_def lit_def)
  have B': "\<exists>m'. url_decode (ex_nul_escape @ [0]) (Ptr 0) = Some (m', 0)"
    using B by simp
  show ?thesis using n1 n2 A' B' by blast
qed

text \<open>
  C7 as stated fails: a \<open>%\<close> that is not followed by two hex digits is copied and the
  decoder returns the length, not 0.
\<close>

theorem url_decode_stray_percent_counterexample:
  "\<not> is_hex_digit (of_char CHR ''z'') \<and>
   url_decode (ex_stray @ [0]) (Ptr 0) = Some (ex_stray @ [0], 3)"
  by (simp add: ex_stray_def url_decode_def url_decode_loop.simps peek_def poke_def hex_escape_def
        lit_def is_hex_digit_def word_sle_eq)

section \<open>Lookup in a sorted key-value list\<close>

lemma cstr_step:
  assumes "0 \<in> set (drop p m)"
  shows "p < length m"
    and "m ! p = 0 \<Longrightarrow> cstr m p = []"
    and "m ! p \<noteq> 0 \<Longrightarrow> cstr m p = m ! p # cstr m (Suc p) \<and> 0 \<in> set (drop (Suc p) m)"
proof -
  show lt: "p < length m" using assms by (cases "p < length m") auto
  have d: "drop p m = m ! p # drop (Suc p) m" using lt by (simp add: Cons_nth_drop_Suc)
  show "m ! p = 0 \<Longrightarrow> cstr m p = []" unfolding cstr_def d by simp
  show "m ! p \<noteq> 0 \<Longrightarrow> cstr m p = m ! p # cstr m (Suc p) \<and> 0 \<in> set (drop (Suc p) m)"
    using assms unfolding cstr_def d by auto
qed

lemma strncmp_cstr:
  "0 \<in> set (drop p m) \<Longrightarrow> 0 \<notin> set k \<Longrightarrow>
   strncmp k m p (length k) = Some (cmp3 k (take (length k) (cstr m p)))"
proof (induction k arbitrary: p)
  case Nil
  then show ?case by (simp add: cmp3_def)
next
  case (Cons a k)
  note st = cstr_step[OF Cons.prems(1)]
  have pk: "peek m p = Some (m ! p)" using st(1) by (simp add: peek_def)
  have a0: "a \<noteq> 0" using Cons.prems(2) by auto
  show ?case
  proof (cases "m ! p = 0")
    case True
    then show ?thesis using st(2) a0 pk
      by (simp add: cmp3_def word_gt_0 not_less)
  next
    case False
    note c = st(3)[OF False]
    show ?thesis
    proof (cases "a = m ! p")
      case True
      have "strncmp k m (Suc p) (length k) = Some (cmp3 k (take (length k) (cstr m (Suc p))))"
        using Cons.IH[of "Suc p"] c Cons.prems(2) by simp
      then show ?thesis using True c pk a0 by (simp add: cmp3_def)
    next
      case ne: False
      then show ?thesis using c pk by (auto simp: cmp3_def)
    qed
  qed
qed

lemma strcmp_cstr:
  "0 \<in> set (drop p m) \<Longrightarrow> 0 \<in> set (drop q m) \<Longrightarrow>
   strcmp m p q = Some (cmp3 (cstr m p) (cstr m q))"
proof (induction "cstr m p" arbitrary: p q)
  case Nil
  note sp = cstr_step[OF Nil.prems(1)] and sq = cstr_step[OF Nil.prems(2)]
  have p0: "m ! p = 0" using sp(3) Nil.hyps by (cases "m ! p = 0") auto
  have pk: "peek m p = Some 0" "peek m q = Some (m ! q)" using sp(1) sq(1) p0 by (simp_all add: peek_def)
  show ?case
  proof (cases "m ! q = 0")
    case True
    then show ?thesis using pk sp(2) sq(2) p0
      by (subst strcmp.simps) (simp add: cmp3_def)
  next
    case False
    then show ?thesis using pk sp(2) sq(3) p0
      by (subst strcmp.simps) (auto simp: cmp3_def word_gt_0)
  qed
next
  case (Cons a s)
  note sp = cstr_step[OF Cons.prems(1)] and sq = cstr_step[OF Cons.prems(2)]
  have pn: "m ! p \<noteq> 0" using sp(2) Cons.hyps(2) by auto
  note cp = sp(3)[OF pn]
  have a: "a = m ! p" "s = cstr m (Suc p)" using cp Cons.hyps(2) by auto
  have pk: "peek m p = Some (m ! p)" "peek m q = Some (m ! q)" using sp(1) sq(1) by (simp_all add: peek_def)
  show ?case
  proof (cases "m ! q = 0")
    case True
    then show ?thesis using pk sq(2) cp pn
      by (subst strcmp.simps) (auto simp: cmp3_def word_gt_0 not_less)
  next
    case False
    note cq = sq(3)[OF False]
    show ?thesis
    proof (cases "m ! p = m ! q")
      case True
      have "strcmp m (Suc p) (Suc q) = Some (cmp3 (cstr m (Suc p)) (cstr m (Suc q)))"
        using Cons.hyps(1)[OF a(2)] cp cq by simp
      then show ?thesis using True pk cp cq pn
        by (subst strcmp.simps) (simp add: cmp3_def)
    next
      case ne: False
      then show ?thesis using pk cp cq
        by (subst strcmp.simps) (auto simp: cmp3_def)
    qed
  qed
qed

lemma take_mono_lex: "(a :: byte list) \<le> b \<Longrightarrow> take n a \<le> take n b"
proof (induction n arbitrary: a b)
  case 0
  then show ?case by simp
next
  case (Suc n)
  show ?case
  proof (cases a)
    case Nil
    then show ?thesis by simp
  next
    case ca: (Cons x xs)
    show ?thesis
    proof (cases b)
      case Nil
      then show ?thesis using Suc.prems ca by simp
    next
      case (Cons y ys)
      then show ?thesis using Suc.prems ca Suc.IH[of xs ys] by auto
    qed
  qed
qed

lemma compare_key_strings:
  assumes "valid_key m a" and "valid_key m b"
  shows "key_value_compare_qsort_key m a b = Some (cmp3 (key_string m a) (key_string m b))"
  using assms
  by (auto simp: valid_key_def key_string_def key_value_compare_qsort_key_def deref_def
        strcmp_cstr split: ptr.splits)

lemma cmp3_le: "cmp3 a b \<le> 0 \<longleftrightarrow> a \<le> b"
  by (auto simp: cmp3_def)

lemma cmp3_signs:
  "cmp3 a b = 0 \<longleftrightarrow> a = b" "cmp3 a b > 0 \<longleftrightarrow> b < a" "cmp3 a b < 0 \<longleftrightarrow> a < b"
  by (auto simp: cmp3_def)

lemma bsearch_probe:
  assumes "valid_key m kv" and "0 \<notin> set k"
  shows "\<exists>kp. key kv = Ptr kp \<and>
           strncmp k m kp (length k) = Some (cmp3 k (take (length k) (key_string m kv)))"
  using assms by (auto simp: valid_key_def key_string_def strncmp_cstr split: ptr.splits)

lemma value_array_bsearch_loop_correct:
  assumes n: "n \<le> length base"
    and valid: "\<forall>i<n. valid_key m (base ! i)"
    and srt: "\<forall>i j. i \<le> j \<and> j < n \<longrightarrow> key_string m (base ! i) \<le> key_string m (base ! j)"
    and k: "0 \<notin> set k"
    and bounds: "lo \<le> hi" "hi \<le> n"
    and below: "\<forall>i<lo. take (length k) (key_string m (base ! i)) < k"
    and above: "\<forall>i. hi \<le> i \<and> i < n \<longrightarrow> k < take (length k) (key_string m (base ! i))"
  shows "(\<exists>i<n. take (length k) (key_string m (base ! i)) = k \<and>
            value_array_bsearch_loop m base k (length k) lo hi = Some (kvalue (base ! i))) \<or>
         ((\<forall>i<n. take (length k) (key_string m (base ! i)) \<noteq> k) \<and>
            value_array_bsearch_loop m base k (length k) lo hi = Some NULL)"
  using bounds below above
proof (induction "hi - lo" arbitrary: lo hi rule: less_induct)
  case less
  let ?T = "\<lambda>i. take (length k) (key_string m (base ! i))"
  show ?case
  proof (cases "lo < hi")
    case False
    then have eq: "lo = hi" using less.prems(1) by simp
    have "\<forall>i<n. ?T i \<noteq> k"
    proof (intro allI impI)
      fix i assume "i < n"
      show "?T i \<noteq> k"
      proof (cases "i < lo")
        case True
        then have "?T i < k" using less.prems(3) by blast
        then show ?thesis by simp
      next
        case False
        then have "hi \<le> i \<and> i < n" using eq \<open>i < n\<close> by simp
        then have "k < ?T i" using less.prems(4) by blast
        then show ?thesis by simp
      qed
    qed
    moreover have "value_array_bsearch_loop m base k (length k) lo hi = Some NULL"
      using False by (subst value_array_bsearch_loop.simps) simp
    ultimately show ?thesis by blast
  next
    case True
    let ?idx = "(lo + hi) div 2"
    have idx: "lo \<le> ?idx" "?idx < hi" using True by auto
    then have idxn: "?idx < n" "?idx < length base" using less.prems(2) n by auto
    obtain kp where kp: "key (base ! ?idx) = Ptr kp"
      and cmp: "strncmp k m kp (length k) = Some (cmp3 k (?T ?idx))"
      using bsearch_probe[OF _ k, of m "base ! ?idx"] valid idxn(1) by blast
    have unfold: "value_array_bsearch_loop m base k (length k) lo hi =
        (if cmp3 k (?T ?idx) = 0 then Some (kvalue (base ! ?idx))
         else if cmp3 k (?T ?idx) > 0 then value_array_bsearch_loop m base k (length k) (?idx + 1) hi
         else value_array_bsearch_loop m base k (length k) lo ?idx)"
      using True idxn(2) kp cmp
      by (subst value_array_bsearch_loop.simps) (simp add: Let_def)
    consider (eq) "cmp3 k (?T ?idx) = 0" | (gt) "cmp3 k (?T ?idx) > 0" | (lt) "cmp3 k (?T ?idx) < 0"
      by linarith
    then show ?thesis
    proof cases
      case eq
      then have "?T ?idx = k" by (simp add: cmp3_signs)
      then show ?thesis using eq idxn(1) unfolding unfold by auto
    next
      case gt
      then have lt': "?T ?idx < k" by (simp add: cmp3_signs)
      have below': "\<forall>i<?idx + 1. ?T i < k"
      proof (intro allI impI)
        fix i assume "i < ?idx + 1"
        then have "i \<le> ?idx" by simp
        then have "key_string m (base ! i) \<le> key_string m (base ! ?idx)" using srt idxn(1) by blast
        then have "?T i \<le> ?T ?idx" by (rule take_mono_lex)
        then show "?T i < k" using lt' by simp
      qed
      have "hi - (?idx + 1) < hi - lo" using idx by linarith
      from less.hyps[OF this _ less.prems(2) below' less.prems(4)] idx
      show ?thesis using gt unfolding unfold by simp
    next
      case lt
      then have gt': "k < ?T ?idx" by (simp add: cmp3_signs)
      have above': "\<forall>i. ?idx \<le> i \<and> i < n \<longrightarrow> k < ?T i"
      proof (intro allI impI)
        fix i assume "?idx \<le> i \<and> i < n"
        then have "key_string m (base ! ?idx) \<le> key_string m (base ! i)" using srt by blast
        then have "?T ?idx \<le> ?T i" by (rule take_mono_lex)
        then show "k < ?T i" using gt' by simp
      qed
      have "?idx - lo < hi - lo" using idx by linarith
      from less.hyps[OF this idx(1) _ less.prems(3) above'] idxn(1)
      show ?thesis using lt unfolding unfold by simp
    qed
  qed
qed

lemma value_array_bsearch_loop_refines:
  assumes n: "n \<le> length base"
    and valid: "\<forall>i<n. valid_key m (base ! i)"
    and k: "0 \<notin> set k"
    and hi: "hi \<le> n"
  shows "value_array_bsearch_loop m base k (length k) lo hi =
           Some (case binary_search_spec (map (key_string m) base) k lo hi of
                   None \<Rightarrow> NULL | Some i \<Rightarrow> kvalue (base ! i))"
  using hi
proof (induction "hi - lo" arbitrary: lo hi rule: less_induct)
  case less
  let ?keys = "map (key_string m) base"
  let ?T = "\<lambda>i. take (length k) (key_string m (base ! i))"
  show ?case
  proof (cases "lo < hi")
    case False
    then show ?thesis
      by (subst value_array_bsearch_loop.simps, subst binary_search_spec.simps) simp
  next
    case True
    let ?idx = "(lo + hi) div 2"
    have idx: "lo \<le> ?idx" "?idx < hi" using True by auto
    then have idxn: "?idx < n" "?idx < length base" using less.prems n by auto
    obtain kp where kp: "key (base ! ?idx) = Ptr kp"
      and cmp: "strncmp k m kp (length k) = Some (cmp3 k (?T ?idx))"
      using bsearch_probe[OF _ k, of m "base ! ?idx"] valid idxn(1) by blast
    have code: "value_array_bsearch_loop m base k (length k) lo hi =
        (if cmp3 k (?T ?idx) = 0 then Some (kvalue (base ! ?idx))
         else if cmp3 k (?T ?idx) > 0 then value_array_bsearch_loop m base k (length k) (?idx + 1) hi
         else value_array_bsearch_loop m base k (length k) lo ?idx)"
      using True idxn(2) kp cmp
      by (subst value_array_bsearch_loop.simps) (simp add: Let_def)
    have nth: "?keys ! ?idx = key_string m (base ! ?idx)" using idxn(2) by simp
    have spec: "binary_search_spec ?keys k lo hi =
        (if ?T ?idx = k then Some ?idx
         else if ?T ?idx < k then binary_search_spec ?keys k (?idx + 1) hi
         else binary_search_spec ?keys k lo ?idx)"
      using True by (subst binary_search_spec.simps) (simp only: nth Let_def if_True)
    have up: "value_array_bsearch_loop m base k (length k) (?idx + 1) hi =
           Some (case binary_search_spec ?keys k (?idx + 1) hi of
                   None \<Rightarrow> NULL | Some i \<Rightarrow> kvalue (base ! i))"
    proof (rule less.hyps)
      show "hi - (?idx + 1) < hi - lo" using idx by linarith
      show "hi \<le> n" by (rule less.prems)
    qed
    have down: "value_array_bsearch_loop m base k (length k) lo ?idx =
           Some (case binary_search_spec ?keys k lo ?idx of
                   None \<Rightarrow> NULL | Some i \<Rightarrow> kvalue (base ! i))"
    proof (rule less.hyps)
      show "?idx - lo < hi - lo" using idx by linarith
      show "?idx \<le> n" using idxn(1) by simp
    qed
    consider (eq) "?T ?idx = k" | (lt) "?T ?idx < k" | (gt) "k < ?T ?idx"
      by (metis linorder_neqE)
    then show ?thesis
    proof cases
      case eq
      then have "cmp3 k (?T ?idx) = 0" by (simp add: cmp3_signs)
      then show ?thesis unfolding code spec using eq by simp
    next
      case lt
      then have "cmp3 k (?T ?idx) > 0" "cmp3 k (?T ?idx) \<noteq> 0" "?T ?idx \<noteq> k"
        by (auto simp: cmp3_def)
      then show ?thesis unfolding code spec using lt up by simp
    next
      case gt
      then have "\<not> cmp3 k (?T ?idx) > 0" "cmp3 k (?T ?idx) \<noteq> 0" "?T ?idx \<noteq> k" "\<not> ?T ?idx < k"
        by (auto simp: cmp3_def)
      then show ?thesis unfolding code spec using down by simp
    qed
  qed
qed

text \<open>
  C2.  On a list of pairs sorted by \<open>key_value_compare_qsort_key\<close> whose keys are strings
  in the buffer, the lookup is the binary search of the specification on the key strings,
  comparing the first \<^verbatim>\<open>strlen(key)\<close> bytes: the first probe that matches wins, and the
  probes are the midpoints \<open>(lo + hi) div 2\<close>.  So it returns the value of a pair whose
  key starts with the query key, and \<open>NULL\<close> exactly when no key does.  The three lookup
  functions of a request are this search on its three lists.  On the sorted list
  \<open>foo=1, foobar=2\<close>, looking up \<open>foo\<close> returns the value of the pair whose key is
  \<open>foobar\<close>.
\<close>

theorem value_array_bsearch_prefix_match:
  assumes "n \<le> length base"
    and "\<forall>i<n. valid_key m (base ! i)"
    and "\<forall>i j. i < j \<and> j < n \<longrightarrow>
           (\<exists>c. key_value_compare_qsort_key m (base ! i) (base ! j) = Some c \<and> c \<le> 0)"
    and "0 \<notin> set k"
  shows "value_array_bsearch m base n k =
           Some (case binary_search_spec (map (key_string m) base) k 0 n of
                   None \<Rightarrow> NULL | Some i \<Rightarrow> kvalue (base ! i)) \<and>
         ((\<exists>i<n. take (length k) (key_string m (base ! i)) = k \<and>
             value_array_bsearch m base n k = Some (kvalue (base ! i))) \<or>
          ((\<forall>i<n. take (length k) (key_string m (base ! i)) \<noteq> k) \<and>
             value_array_bsearch m base n k = Some NULL)) \<and>
         lwan_request_get_query_param m request k =
           value_array_bsearch m (kv_base (query_params request)) (kv_len (query_params request)) k \<and>
         lwan_request_get_post_param m request k =
           value_array_bsearch m (kv_base (req_post_data request)) (kv_len (req_post_data request)) k \<and>
         lwan_request_get_cookie m request k =
           value_array_bsearch m (kv_base (cookies request)) (kv_len (cookies request)) k \<and>
         key_string ex_foo_mem (ex_foo_kvs ! 0) = lit ''foo'' \<and>
         key_string ex_foo_mem (ex_foo_kvs ! 1) = lit ''foobar'' \<and>
         value_array_bsearch ex_foo_mem ex_foo_kvs 2 (lit ''foo'') = Some (kvalue (ex_foo_kvs ! 1))"
proof -
  have srt: "\<forall>i j. i \<le> j \<and> j < n \<longrightarrow> key_string m (base ! i) \<le> key_string m (base ! j)"
  proof (intro allI impI)
    fix i j assume ij: "i \<le> j \<and> j < n"
    show "key_string m (base ! i) \<le> key_string m (base ! j)"
    proof (cases "i = j")
      case True then show ?thesis by simp
    next
      case False
      then have "i < j \<and> j < n" using ij by simp
      then obtain c where "key_value_compare_qsort_key m (base ! i) (base ! j) = Some c" "c \<le> 0"
        using assms(3) by blast
      moreover have "valid_key m (base ! i)" "valid_key m (base ! j)" using assms(2) ij by auto
      ultimately show ?thesis using compare_key_strings cmp3_le by auto
    qed
  qed
  have refines: "value_array_bsearch m base n k =
           Some (case binary_search_spec (map (key_string m) base) k 0 n of
                   None \<Rightarrow> NULL | Some i \<Rightarrow> kvalue (base ! i))"
  proof (cases "n = 0")
    case True
    then show ?thesis
      by (subst binary_search_spec.simps) (simp add: value_array_bsearch_def)
  next
    case False
    then show ?thesis
      using value_array_bsearch_loop_refines[OF assms(1,2,4) order_refl, of 0]
      by (simp add: value_array_bsearch_def)
  qed
  have general: "(\<exists>i<n. take (length k) (key_string m (base ! i)) = k \<and>
             value_array_bsearch m base n k = Some (kvalue (base ! i))) \<or>
          ((\<forall>i<n. take (length k) (key_string m (base ! i)) \<noteq> k) \<and>
             value_array_bsearch m base n k = Some NULL)"
  proof (cases "n = 0")
    case True
    then show ?thesis by (simp add: value_array_bsearch_def)
  next
    case False
    have b: "\<forall>i<0. take (length k) (key_string m (base ! i)) < k" by simp
    have a: "\<forall>i. n \<le> i \<and> i < n \<longrightarrow> k < take (length k) (key_string m (base ! i))"
      by (intro allI impI) linarith
    show ?thesis
      using value_array_bsearch_loop_correct[OF assms(1,2) srt assms(4) le0 order_refl b a] False
      by (simp add: value_array_bsearch_def)
  qed
  have ex: "key_string ex_foo_mem (ex_foo_kvs ! 0) = lit ''foo''"
    "key_string ex_foo_mem (ex_foo_kvs ! 1) = lit ''foobar''"
    by (simp_all add: key_string_def ex_foo_kvs_def ex_foo_mem_def cstr_def lit_def)
  have look: "value_array_bsearch ex_foo_mem ex_foo_kvs 2 (lit ''foo'') = Some (kvalue (ex_foo_kvs ! 1))"
    by (simp add: value_array_bsearch_def value_array_bsearch_loop.simps ex_foo_kvs_def
          ex_foo_mem_def lit_def peek_def)
  show ?thesis using refines general ex look
    by (simp add: lwan_request_get_query_param_def lwan_request_get_post_param_def
          lwan_request_get_cookie_def)
qed

theorem value_array_bsearch_prefix_match_witness:
  "2 \<le> length ex_foo_kvs \<and> valid_key ex_foo_mem (ex_foo_kvs ! 0) \<and>
   valid_key ex_foo_mem (ex_foo_kvs ! 1) \<and>
   key_value_compare_qsort_key ex_foo_mem (ex_foo_kvs ! 0) (ex_foo_kvs ! 1) = Some (- 1) \<and>
   0 \<notin> set (lit ''foo'') \<and>
   take (length (lit ''foo'')) (key_string ex_foo_mem (ex_foo_kvs ! 1)) = lit ''foo'' \<and>
   value_array_bsearch ex_foo_mem ex_foo_kvs 2 (lit ''foo'') = Some (kvalue (ex_foo_kvs ! 1)) \<and>
   value_array_bsearch ex_foo_mem ex_foo_kvs 2 (lit ''foo'') \<noteq> Some NULL \<and>
   3 \<le> length ex_foo3_kvs \<and> valid_key ex_foo3_mem (ex_foo3_kvs ! 0) \<and>
   valid_key ex_foo3_mem (ex_foo3_kvs ! 1) \<and> valid_key ex_foo3_mem (ex_foo3_kvs ! 2) \<and>
   key_value_compare_qsort_key ex_foo3_mem (ex_foo3_kvs ! 0) (ex_foo3_kvs ! 1) = Some (- 1) \<and>
   key_value_compare_qsort_key ex_foo3_mem (ex_foo3_kvs ! 0) (ex_foo3_kvs ! 2) = Some (- 1) \<and>
   key_value_compare_qsort_key ex_foo3_mem (ex_foo3_kvs ! 1) (ex_foo3_kvs ! 2) = Some (- 1) \<and>
   map (key_string ex_foo3_mem) ex_foo3_kvs = [lit ''foo'', lit ''fooa'', lit ''foob'', []] \<and>
   binary_search_spec [lit ''foo'', lit ''fooa'', lit ''foob'', []] (lit ''foo'') 0 3 = Some 1 \<and>
   value_array_bsearch ex_foo3_mem ex_foo3_kvs 3 (lit ''foo'') = Some (Ptr 11) \<and>
   kvalue (ex_foo3_kvs ! 0) = Ptr 4 \<and> kvalue (ex_foo3_kvs ! 1) = Ptr 11 \<and>
   kvalue (ex_foo3_kvs ! 2) = Ptr 18"
proof -
  have h1: "2 \<le> length ex_foo_kvs" by (simp add: ex_foo_kvs_def)
  have v0: "valid_key ex_foo_mem (ex_foo_kvs ! 0)" and v1: "valid_key ex_foo_mem (ex_foo_kvs ! 1)"
    by (simp_all add: valid_key_def ex_foo_kvs_def ex_foo_mem_def lit_def)
  have h2: "\<forall>i<2. valid_key ex_foo_mem (ex_foo_kvs ! i)"
  proof (intro allI impI)
    fix i :: nat assume "i < 2"
    then have "i = 0 \<or> i = 1" by auto
    then show "valid_key ex_foo_mem (ex_foo_kvs ! i)" using v0 v1 by auto
  qed
  have c: "key_value_compare_qsort_key ex_foo_mem (ex_foo_kvs ! 0) (ex_foo_kvs ! 1) = Some (- 1)"
    by (simp add: key_value_compare_qsort_key_def deref_def ex_foo_kvs_def ex_foo_mem_def lit_def
          strcmp.simps peek_def)
  have h3: "\<forall>i j. i < j \<and> j < 2 \<longrightarrow>
      (\<exists>c. key_value_compare_qsort_key ex_foo_mem (ex_foo_kvs ! i) (ex_foo_kvs ! j) = Some c \<and> c \<le> 0)"
  proof (intro allI impI)
    fix i j :: nat assume "i < j \<and> j < 2"
    then have "i = 0 \<and> j = 1" by auto
    then show "\<exists>c. key_value_compare_qsort_key ex_foo_mem (ex_foo_kvs ! i) (ex_foo_kvs ! j) = Some c \<and> c \<le> 0"
      using c by auto
  qed
  have h4: "0 \<notin> set (lit ''foo'')" by (simp add: lit_def)
  note two = value_array_bsearch_prefix_match[OF h1 h2 h3 h4]
  have found: "value_array_bsearch ex_foo_mem ex_foo_kvs 2 (lit ''foo'') = Some (kvalue (ex_foo_kvs ! 1))"
    using two by blast
  have "kvalue (ex_foo_kvs ! 1) \<noteq> NULL" by (simp add: ex_foo_kvs_def)
  then have nn: "value_array_bsearch ex_foo_mem ex_foo_kvs 2 (lit ''foo'') \<noteq> Some NULL"
    using found by simp
  have pre: "take (length (lit ''foo'')) (key_string ex_foo_mem (ex_foo_kvs ! 1)) = lit ''foo''"
    by (simp add: key_string_def ex_foo_kvs_def ex_foo_mem_def cstr_def lit_def)
  have g1: "3 \<le> length ex_foo3_kvs" by (simp add: ex_foo3_kvs_def)
  have w0: "valid_key ex_foo3_mem (ex_foo3_kvs ! 0)" and w1: "valid_key ex_foo3_mem (ex_foo3_kvs ! 1)"
    and w2: "valid_key ex_foo3_mem (ex_foo3_kvs ! 2)"
    by (simp_all add: valid_key_def ex_foo3_kvs_def ex_foo3_mem_def lit_def)
  have g2: "\<forall>i<3. valid_key ex_foo3_mem (ex_foo3_kvs ! i)"
  proof (intro allI impI)
    fix i :: nat assume "i < 3"
    then have "i = 0 \<or> i = 1 \<or> i = 2" by auto
    then show "valid_key ex_foo3_mem (ex_foo3_kvs ! i)" using w0 w1 w2 by auto
  qed
  have c01: "key_value_compare_qsort_key ex_foo3_mem (ex_foo3_kvs ! 0) (ex_foo3_kvs ! 1) = Some (- 1)"
    and c02: "key_value_compare_qsort_key ex_foo3_mem (ex_foo3_kvs ! 0) (ex_foo3_kvs ! 2) = Some (- 1)"
    and c12: "key_value_compare_qsort_key ex_foo3_mem (ex_foo3_kvs ! 1) (ex_foo3_kvs ! 2) = Some (- 1)"
    by code_simp+
  have g3: "\<forall>i j. i < j \<and> j < 3 \<longrightarrow>
      (\<exists>c. key_value_compare_qsort_key ex_foo3_mem (ex_foo3_kvs ! i) (ex_foo3_kvs ! j) = Some c \<and> c \<le> 0)"
  proof (intro allI impI)
    fix i j :: nat assume "i < j \<and> j < 3"
    then have "i = 0 \<and> j = 1 \<or> i = 0 \<and> j = 2 \<or> i = 1 \<and> j = 2" by auto
    then show "\<exists>c. key_value_compare_qsort_key ex_foo3_mem (ex_foo3_kvs ! i) (ex_foo3_kvs ! j) = Some c \<and> c \<le> 0"
      using c01 c02 c12 by auto
  qed
  have keys: "map (key_string ex_foo3_mem) ex_foo3_kvs = [lit ''foo'', lit ''fooa'', lit ''foob'', []]"
    by (simp add: key_string_def ex_foo3_kvs_def ex_foo3_mem_def cstr_def lit_def)
  have probe: "binary_search_spec [lit ''foo'', lit ''fooa'', lit ''foob'', []] (lit ''foo'') 0 3 = Some 1"
    by (subst binary_search_spec.simps) (simp add: lit_def)
  have vals: "kvalue (ex_foo3_kvs ! 0) = Ptr 4" "kvalue (ex_foo3_kvs ! 1) = Ptr 11"
    "kvalue (ex_foo3_kvs ! 2) = Ptr 18"
    by (simp_all add: ex_foo3_kvs_def)
  have three: "value_array_bsearch ex_foo3_mem ex_foo3_kvs 3 (lit ''foo'') = Some (Ptr 11)"
    using value_array_bsearch_prefix_match[OF g1 g2 g3 h4, THEN conjunct1] keys probe vals
    by simp
  show ?thesis
    using found nn pre h1 v0 v1 c h4 g1 w0 w1 w2 c01 c02 c12 keys probe three vals by blast
qed

section \<open>The request line\<close>

lemma size_t_int: "0 \<le> i \<Longrightarrow> i < 2 ^ 64 \<Longrightarrow> size_t i = nat i"
  unfolding size_t_def by (metis mod_pos_pos_trivial)

lemma memchr_spec:
  "p + n \<le> length m \<Longrightarrow>
   (memchr m p c n = Some NULL \<and> (\<forall>i. p \<le> i \<and> i < p + n \<longrightarrow> m ! i \<noteq> c)) \<or>
   (\<exists>e. memchr m p c n = Some (Ptr e) \<and> p \<le> e \<and> e < p + n \<and> m ! e = c \<and>
        (\<forall>i. p \<le> i \<and> i < e \<longrightarrow> m ! i \<noteq> c))"
proof (induction n arbitrary: p)
  case 0
  then show ?case by auto
next
  case (Suc n)
  then have pk: "peek m p = Some (m ! p)" by (simp add: peek_def)
  show ?case
  proof (cases "m ! p = c")
    case True
    then show ?thesis unfolding memchr.simps pk by auto
  next
    case False
    have step: "memchr m p c (Suc n) = memchr m (Suc p) c n"
      unfolding memchr.simps pk using False by simp
    have IH: "(memchr m (Suc p) c n = Some NULL \<and> (\<forall>i. Suc p \<le> i \<and> i < Suc p + n \<longrightarrow> m ! i \<noteq> c)) \<or>
      (\<exists>e. memchr m (Suc p) c n = Some (Ptr e) \<and> Suc p \<le> e \<and> e < Suc p + n \<and> m ! e = c \<and>
        (\<forall>i. Suc p \<le> i \<and> i < e \<longrightarrow> m ! i \<noteq> c))"
      using Suc.IH[of "Suc p"] Suc.prems by simp
    have first: "(\<forall>i. Suc p \<le> i \<and> i < e \<longrightarrow> m ! i \<noteq> c) \<Longrightarrow> (\<forall>i. p \<le> i \<and> i < e \<longrightarrow> m ! i \<noteq> c)" for e
      using False by (metis Suc_leI le_neq_implies_less)
    from IH show ?thesis
    proof
      assume a: "memchr m (Suc p) c n = Some NULL \<and> (\<forall>i. Suc p \<le> i \<and> i < Suc p + n \<longrightarrow> m ! i \<noteq> c)"
      then have "\<forall>i. p \<le> i \<and> i < p + Suc n \<longrightarrow> m ! i \<noteq> c" using first[of "Suc p + n"] by simp
      then show ?thesis using a step by simp
    next
      assume "\<exists>e. memchr m (Suc p) c n = Some (Ptr e) \<and> Suc p \<le> e \<and> e < Suc p + n \<and> m ! e = c \<and>
        (\<forall>i. Suc p \<le> i \<and> i < e \<longrightarrow> m ! i \<noteq> c)"
      then obtain e where e: "memchr m (Suc p) c n = Some (Ptr e)" "Suc p \<le> e" "e < Suc p + n" "m ! e = c"
        "\<forall>i. Suc p \<le> i \<and> i < e \<longrightarrow> m ! i \<noteq> c" by blast
      have "memchr m p c (Suc n) = Some (Ptr e) \<and> p \<le> e \<and> e < p + Suc n \<and> m ! e = c \<and>
        (\<forall>i. p \<le> i \<and> i < e \<longrightarrow> m ! i \<noteq> c)"
        using e step first[OF e(5)] by simp
      then show ?thesis by blast
    qed
  qed
qed

lemma memrchr_total:
  "p + n \<le> length m \<Longrightarrow>
   memrchr m p c n = Some NULL \<or> (\<exists>f. memrchr m p c n = Some (Ptr f) \<and> p \<le> f \<and> f < p + n)"
proof (induction n)
  case 0
  then show ?case by simp
next
  case (Suc n)
  then have pk: "peek m (p + n) = Some (m ! (p + n))" by (simp add: peek_def)
  show ?case using Suc unfolding memrchr.simps pk by auto
qed

lemma memchr_total:
  "p + n \<le> length m \<Longrightarrow>
   memchr m p c n = Some NULL \<or> (\<exists>f. memchr m p c n = Some (Ptr f) \<and> p \<le> f \<and> f < p + n)"
  using memchr_spec[of p n m c] by blast

lemma poke_in: "p < length m \<Longrightarrow> poke m p b = Some (m[p := b])"
  by (simp add: poke_def)

lemma parse_fragment_and_query_total:
  assumes u: "val (url request) = Ptr u" and sp: "space = u + len (url request)"
    and inb: "space \<le> length m" and sz: "int (length m) < 2 ^ 64"
  shows "\<exists>m' request' helper'.
           parse_fragment_and_query m request helper space = Some (m', request', helper') \<and>
           flags request' = flags request \<and> length m' = length m \<and>
           (\<forall>i. space \<le> i \<longrightarrow> m' ! i = m ! i)"
proof -
  let ?n = "len (url request)"
  have un: "u + ?n \<le> length m" using sp inb by simp
  note fr = memrchr_total[OF un, of "of_char CHR ''#''"]
  have second: "\<exists>m' request' helper'.
      (do { query_p \<leftarrow> memchr m1 u (of_char CHR ''?'') (len (url request1));
            (case query_p of
               NULL \<Rightarrow> Some (m1, request1, helper1)
             | Ptr q \<Rightarrow> do {
                 m' \<leftarrow> poke m1 q 0;
                 let qlen = size_t (int (case fp of NULL \<Rightarrow> space | Ptr f \<Rightarrow> f) - int q - 1);
                 Some (m',
                       request1\<lparr>url := (url request1)\<lparr>len := size_t (int (len (url request1)) - (int qlen + 1))\<rparr>\<rparr>,
                       helper1\<lparr>query_string := \<lparr>val = Ptr (q + 1), len = qlen\<rparr>\<rparr>)
               }) }) = Some (m', request', helper') \<and>
      flags request' = flags request1 \<and> length m' = length m1 \<and>
      (\<forall>i. u + len (url request1) \<le> i \<longrightarrow> m' ! i = m1 ! i)"
    if "u + len (url request1) \<le> length m1" for m1 request1 helper1 fp
  proof -
    from memchr_total[OF that, of "of_char CHR ''?''"] show ?thesis
    proof
      assume "memchr m1 u (of_char CHR ''?'') (len (url request1)) = Some NULL"
      then show ?thesis by simp
    next
      assume "\<exists>f. memchr m1 u (of_char CHR ''?'') (len (url request1)) = Some (Ptr f) \<and> u \<le> f \<and>
                f < u + len (url request1)"
      then obtain q where q: "memchr m1 u (of_char CHR ''?'') (len (url request1)) = Some (Ptr q)"
        "q < u + len (url request1)" by blast
      then have "poke m1 q 0 = Some (m1[q := 0])" using that by (simp add: poke_def)
      then show ?thesis using q by (simp add: Let_def)
    qed
  qed
  from fr show ?thesis
  proof
    assume n: "memrchr m u (of_char CHR ''#'') ?n = Some NULL"
    from second[of request m helper NULL, OF un] n u sp
    show ?thesis by (simp add: parse_fragment_and_query_def deref_def)
  next
    assume "\<exists>f. memrchr m u (of_char CHR ''#'') ?n = Some (Ptr f) \<and> u \<le> f \<and> f < u + ?n"
    then obtain f where f: "memrchr m u (of_char CHR ''#'') ?n = Some (Ptr f)" "u \<le> f" "f < u + ?n"
      by blast
    have pk: "poke m f 0 = Some (m[f := 0])" using f(3) un by (simp add: poke_def)
    let ?flen = "size_t (int space - int f - 1)"
    have fl: "?flen = space - f - 1"
    proof -
      have "0 \<le> int space - int f - 1" using f(3) sp by simp
      moreover have "int space - int f - 1 < 2 ^ 64" using inb sz by linarith
      ultimately have "?flen = nat (int space - int f - 1)" by (rule size_t_int)
      then show ?thesis by simp
    qed
    let ?request1 = "request\<lparr>url := (url request)\<lparr>len := size_t (int ?n - (int ?flen + 1))\<rparr>\<rparr>"
    have l1: "len (url ?request1) = f - u"
    proof -
      have e: "int ?n - (int ?flen + 1) = int (f - u)" using fl f sp by simp
      have "int (f - u) < 2 ^ 64" using f(3) un sz by linarith
      then have "size_t (int (f - u)) = f - u" using size_t_int[of "int (f - u)"] by simp
      then show ?thesis using e by simp
    qed
    have b1: "u + len (url ?request1) \<le> length (m[f := 0])" using l1 f un by simp
    have far: "u + (f - u) \<le> i" "m[f := 0] ! i = m ! i" if "space \<le> i" for i
      using that f sp by simp_all
    from second[of ?request1 "m[f := 0]" "helper\<lparr>fragment := \<lparr>val = Ptr (f + 1), len = ?flen\<rparr>\<rparr>" "Ptr f", OF b1]
    show ?thesis using f(1) u pk l1 far
      by (auto simp: parse_fragment_and_query_def deref_def Let_def)
  qed
qed






section \<open>The key-value list parser\<close>

lemma array_store_length: "array_store kvs i kv = Some kvs' \<Longrightarrow> length kvs' = length kvs"
  by (auto simp: array_store_def split: if_splits)

lemma kv_loop_length:
  "kv_loop decode_value separator m ptr kvs n = Some (Collected m' kvs' n') \<Longrightarrow>
   length kvs' = length kvs"
proof (induction decode_value separator m ptr kvs n rule: kv_loop.induct)
  case (1 decode_value separator m ptr kvs n)
  from "1.prems"[unfolded kv_loop.simps[of decode_value separator m ptr kvs n]]
  obtain m1 k v next_p kvs1 where
    s: "kv_next_pair decode_value separator m ptr = Some (PairDecoded m1 k v next_p)"
       "array_store kvs n \<lparr>key = Ptr k, kvalue = Ptr v\<rparr> = Some kvs1"
    and rest: "(case next_p of
                   NULL \<Rightarrow> Some (Collected m1 kvs1 (n + 1))
                 | Ptr np \<Rightarrow>
                     if n + 1 < n_elements
                     then kv_loop decode_value separator m1 np kvs1 (n + 1)
                     else Some (Collected m1 kvs1 (n + 1))) = Some (Collected m' kvs' n')"
    by (auto split: option.splits pair_result.splits)
  note l1 = array_store_length[OF s(2)]
  show ?case
  proof (cases next_p)
    case NULL
    then show ?thesis using rest l1 by auto
  next
    case (Ptr np)
    show ?thesis
    proof (cases "n + 1 < n_elements")
      case True
      then have "kv_loop decode_value separator m1 np kvs1 (n + 1) = Some (Collected m' kvs' n')"
        using rest Ptr by simp
      from "1.IH"[OF s(1) refl s(2) Ptr True this]
      show ?thesis using l1 by simp
    next
      case False
      then show ?thesis using rest Ptr l1 by auto
    qed
  qed
qed

text \<open>
  C1.  The array of pairs is allocated for \<open>n_elements = 32\<close> pairs and the loop collects up
  to 32 of them, so the sentinel that is to end the list has no room when 32 pairs were
  collected: the store of the sentinel at index 32 falls outside the allocation.
\<close>

theorem parse_key_values_sentinel_overflow:
  assumes "len helper_value \<noteq> 0" and "coro_malloc n_elements = Some fresh"
    and "length fresh = n_elements" and "val helper_value = Ptr start"
    and "kv_loop decode_value separator m start fresh 0 = Some (Collected m' kvs' n_elements)"
  shows "parse_key_values coro_malloc decode_value separator m helper_value old_base old_len = None"
proof -
  have "length kvs' = n_elements" using kv_loop_length[OF assms(5)] assms(3) by simp
  then have "array_store kvs' n_elements \<lparr>key = NULL, kvalue = NULL\<rparr> = None"
    by (simp add: array_store_def)
  then show ?thesis using assms by (simp add: parse_key_values_def deref_def)
qed

theorem parse_key_values_sentinel_overflow_witness:
  "len ex_32_value \<noteq> 0 \<and> zeroed_malloc n_elements = Some (replicate n_elements sentinel) \<and>
   length (replicate n_elements sentinel) = n_elements \<and> val ex_32_value = Ptr 0 \<and>
   map_option (\<lambda>r. case r of Collected m' kvs' n \<Rightarrow> n | Stopped m' why \<Rightarrow> 0)
     (kv_loop url_decode (of_char CHR ''&'') ex_32_pairs 0 (replicate n_elements sentinel) 0) =
     Some n_elements \<and>
   parse_key_values zeroed_malloc url_decode (of_char CHR ''&'') ex_32_pairs ex_32_value [] 0 = None"
proof -
  have h1: "len ex_32_value \<noteq> 0" by (simp add: ex_32_value_def)
  have h2: "zeroed_malloc n_elements = Some (replicate n_elements sentinel)"
    by (simp add: zeroed_malloc_def sentinel_def)
  have h3: "length (replicate n_elements sentinel) = n_elements" by simp
  have h4: "val ex_32_value = Ptr 0" by (simp add: ex_32_value_def)
  have run: "map_option (\<lambda>r. case r of Collected m' kvs' n \<Rightarrow> n | Stopped m' why \<Rightarrow> 0)
     (kv_loop url_decode (of_char CHR ''&'') ex_32_pairs 0 (replicate n_elements sentinel) 0) =
     Some n_elements"
    by code_simp
  then obtain r where
    r: "kv_loop url_decode (of_char CHR ''&'') ex_32_pairs 0 (replicate n_elements sentinel) 0 = Some r"
    and n: "(case r of Collected m' kvs' n \<Rightarrow> n | Stopped m' why \<Rightarrow> 0) = n_elements"
    by auto
  obtain m' kvs' where "r = Collected m' kvs' n_elements"
    using n by (cases r) (auto simp: n_elements_def)
  with r have
    h5: "kv_loop url_decode (of_char CHR ''&'') ex_32_pairs 0 (replicate n_elements sentinel) 0 =
           Some (Collected m' kvs' n_elements)"
    by simp
  show ?thesis
    using parse_key_values_sentinel_overflow[where coro_malloc = zeroed_malloc
        and old_base = "[]" and old_len = 0, OF h1 h2 h3 h4 h5] h1 h2 h3 h4 run
    by blast
qed

lemma kv_loop_after_pairs:
  assumes "kv_after_pairs decode_value separator m ptr j = Some (mj, pj)"
    and "n + j < n_elements" and "n + j \<le> length kvs"
  shows "\<exists>kvs'. length kvs' = length kvs \<and>
           kv_loop decode_value separator m ptr kvs n =
           kv_loop decode_value separator mj pj kvs' (n + j)"
  using assms
proof (induction j arbitrary: m ptr kvs n)
  case 0
  then show ?case by auto
next
  case (Suc j)
  from Suc.prems(1) obtain m1 k v np where
    pair: "kv_next_pair decode_value separator m ptr = Some (PairDecoded m1 k v (Ptr np))"
    and rest: "kv_after_pairs decode_value separator m1 np j = Some (mj, pj)"
    by (auto split: option.splits pair_result.splits ptr.splits)
  have st: "array_store kvs n \<lparr>key = Ptr k, kvalue = Ptr v\<rparr> =
              Some (kvs[n := \<lparr>key = Ptr k, kvalue = Ptr v\<rparr>])"
    using Suc.prems(3) by (simp add: array_store_def)
  have step: "kv_loop decode_value separator m ptr kvs n =
              kv_loop decode_value separator m1 np (kvs[n := \<lparr>key = Ptr k, kvalue = Ptr v\<rparr>]) (Suc n)"
    using pair st Suc.prems(2) by (subst kv_loop.simps) simp
  from Suc.IH[OF rest, of "Suc n" "kvs[n := \<lparr>key = Ptr k, kvalue = Ptr v\<rparr>]"] Suc.prems(2,3)
  obtain kvs' where "length kvs' = length kvs"
    "kv_loop decode_value separator m1 np (kvs[n := \<lparr>key = Ptr k, kvalue = Ptr v\<rparr>]) (Suc n) =
     kv_loop decode_value separator mj pj kvs' (Suc n + j)"
    by auto
  then show ?case using step by auto
qed

text \<open>
  C3 (as amended).  When the decoder returns 0 on the key or on the value of a pair, after
  any number \<open>j\<close> of pairs that were framed, decoded and stored before it, the loop stops
  and \<open>parse_key_values\<close> returns without storing anything: the list base and length of
  the request stay as they were, and the \<open>j\<close> pairs collected before the failing pair are
  not returned.
\<close>

theorem parse_key_values_decode_failure:
  assumes "len helper_value \<noteq> 0" and "coro_malloc n_elements = Some fresh"
    and "length fresh = n_elements" and "val helper_value = Ptr start"
    and "kv_after_pairs decode_value separator m start j = Some (mj, pj)" and "j < n_elements"
    and "skip_separators mj pj separator = Some k" and "peek mj k = Some c" and "c \<noteq> 0"
    and "strsep_char mj (Ptr k) (of_char CHR ''='') = Some (m1, Ptr v)"
    and "strsep_char m1 (Ptr v) separator = Some (m2, next_p)"
    and "decode_value m2 (Ptr k) = Some (m3, dk)"
    and "dk = 0 \<and> m4 = m3 \<or> dk \<noteq> 0 \<and> decode_value m3 (Ptr v) = Some (m4, 0)"
  shows "kv_loop decode_value separator m start fresh 0 = Some (Stopped m4 DecodeFailed) \<and>
         parse_key_values coro_malloc decode_value separator m helper_value old_base old_len =
           Some (Returned m4 old_base old_len)"
proof -
  have fail: "kv_next_pair decode_value separator mj pj = Some (PairStop m4 DecodeFailed)"
    using assms(7-13) by (auto simp: kv_next_pair_def simp del: of_char_Char)
  have stop: "kv_loop decode_value separator mj pj kvs' n = Some (Stopped m4 DecodeFailed)" for kvs' n
    using fail by (subst kv_loop.simps) simp
  from kv_loop_after_pairs[OF assms(5), of 0 fresh] assms(3,6)
  have loop: "kv_loop decode_value separator m start fresh 0 = Some (Stopped m4 DecodeFailed)"
    using stop by auto
  then show ?thesis using assms(1,2,4) by (simp add: parse_key_values_def deref_def)
qed

theorem parse_key_values_decode_failure_witness:
  "len ex_bad_escape_value \<noteq> 0 \<and> zeroed_malloc n_elements = Some (replicate n_elements sentinel) \<and>
   length (replicate n_elements sentinel) = n_elements \<and> val ex_bad_escape_value = Ptr 0 \<and>
   kv_after_pairs url_decode (of_char CHR ''&'') ex_bad_escape 0 1 =
     Some (lit ''a'' @ [0] @ lit ''1'' @ [0] @ lit ''b=%00'' @ [0], 4) \<and>
   1 < n_elements \<and>
   skip_separators (lit ''a'' @ [0] @ lit ''1'' @ [0] @ lit ''b=%00'' @ [0]) 4 (of_char CHR ''&'') = Some 4 \<and>
   peek (lit ''a'' @ [0] @ lit ''1'' @ [0] @ lit ''b=%00'' @ [0]) 4 = Some (of_char CHR ''b'') \<and>
   (of_char CHR ''b'' :: byte) \<noteq> 0 \<and>
   strsep_char (lit ''a'' @ [0] @ lit ''1'' @ [0] @ lit ''b=%00'' @ [0]) (Ptr 4) (of_char CHR ''='') =
     Some (lit ''a'' @ [0] @ lit ''1'' @ [0] @ lit ''b'' @ [0] @ lit ''%00'' @ [0], Ptr 6) \<and>
   strsep_char (lit ''a'' @ [0] @ lit ''1'' @ [0] @ lit ''b'' @ [0] @ lit ''%00'' @ [0]) (Ptr 6)
       (of_char CHR ''&'') =
     Some (lit ''a'' @ [0] @ lit ''1'' @ [0] @ lit ''b'' @ [0] @ lit ''%00'' @ [0], NULL) \<and>
   url_decode (lit ''a'' @ [0] @ lit ''1'' @ [0] @ lit ''b'' @ [0] @ lit ''%00'' @ [0]) (Ptr 4) =
     Some (lit ''a'' @ [0] @ lit ''1'' @ [0] @ lit ''b'' @ [0] @ lit ''%00'' @ [0], 1) \<and>
   url_decode (lit ''a'' @ [0] @ lit ''1'' @ [0] @ lit ''b'' @ [0] @ lit ''%00'' @ [0]) (Ptr 6) =
     Some (lit ''a'' @ [0] @ lit ''1'' @ [0] @ lit ''b'' @ [0] @ lit ''%00'' @ [0], 0) \<and>
   kv_loop url_decode (of_char CHR ''&'') ex_bad_escape 0 (replicate n_elements sentinel) 0 =
     Some (Stopped (lit ''a'' @ [0] @ lit ''1'' @ [0] @ lit ''b'' @ [0] @ lit ''%00'' @ [0]) DecodeFailed) \<and>
   parse_key_values zeroed_malloc url_decode (of_char CHR ''&'') ex_bad_escape ex_bad_escape_value
       [sentinel] 0 =
     Some (Returned (lit ''a'' @ [0] @ lit ''1'' @ [0] @ lit ''b'' @ [0] @ lit ''%00'' @ [0]) [sentinel] 0)"
proof -
  let ?mj = "lit ''a'' @ [0] @ lit ''1'' @ [0] @ lit ''b=%00'' @ [0]"
  let ?m1 = "lit ''a'' @ [0] @ lit ''1'' @ [0] @ lit ''b'' @ [0] @ lit ''%00'' @ [0]"
  have h1: "len ex_bad_escape_value \<noteq> 0" by (simp add: ex_bad_escape_value_def)
  have h2: "zeroed_malloc n_elements = Some (replicate n_elements sentinel)"
    by (simp add: zeroed_malloc_def sentinel_def)
  have h3: "length (replicate n_elements sentinel) = n_elements" by simp
  have h4: "val ex_bad_escape_value = Ptr 0" by (simp add: ex_bad_escape_value_def)
  have h5: "kv_after_pairs url_decode (of_char CHR ''&'') ex_bad_escape 0 1 = Some (?mj, 4)"
    by code_simp
  have h6: "1 < n_elements" by (simp add: n_elements_def)
  have h7: "skip_separators ?mj 4 (of_char CHR ''&'') = Some 4" by code_simp
  have h8: "peek ?mj 4 = Some (of_char CHR ''b'')" by code_simp
  have h9: "(of_char CHR ''b'' :: byte) \<noteq> 0" by simp
  have h10: "strsep_char ?mj (Ptr 4) (of_char CHR ''='') = Some (?m1, Ptr 6)" by code_simp
  have h11: "strsep_char ?m1 (Ptr 6) (of_char CHR ''&'') = Some (?m1, NULL)" by code_simp
  have h12: "url_decode ?m1 (Ptr 4) = Some (?m1, 1)" by code_simp
  have h13: "url_decode ?m1 (Ptr 6) = Some (?m1, 0)" by code_simp
  have h14: "(1::nat) = 0 \<and> ?m1 = ?m1 \<or> (1::nat) \<noteq> 0 \<and> url_decode ?m1 (Ptr 6) = Some (?m1, 0)"
    using h13 by simp
  show ?thesis
    using parse_key_values_decode_failure[where coro_malloc = zeroed_malloc
        and decode_value = url_decode and old_base = "[sentinel]" and old_len = 0,
        OF h1 h2 h3 h4 h5 h6 h7 h8 h9 h10 h11 h12 h14]
      h1 h2 h3 h4 h5 h6 h7 h8 h9 h10 h11 h12 h13 by blast
qed

text \<open>
  C3 as stated fails: on \<^verbatim>\<open>a=1&b=%00\<close> the pair \<open>a=1\<close> is collected and decoded, the
  decoder returns 0 on \<^verbatim>\<open>%00\<close>, and the caller's list stays empty with length 0.
\<close>

theorem parse_key_values_partial_counterexample:
  "parse_key_values zeroed_malloc url_decode (of_char CHR ''&'') ex_bad_escape ex_bad_escape_value [] 0 =
     Some (Returned (lit ''a'' @ [0] @ lit ''1'' @ [0] @ lit ''b'' @ [0] @ lit ''%00'' @ [0]) [] 0) \<and>
   url_decode (lit ''a'' @ [0] @ lit ''1&b=%00'' @ [0]) (Ptr 0) = Some (lit ''a'' @ [0] @ lit ''1&b=%00'' @ [0], 1)"
  by code_simp

section \<open>The rewrite limit of the dispatch loop\<close>

lemma lookups_simps [simp]:
  "lookups [] = 0"
  "lookups (t @ u) = lookups t + lookups u"
  "lookups (TrieLookup p # t) = Suc (lookups t)"
  "lookups (Yielded # t) = lookups t"
  "lookups (Aborted_coro # t) = lookups t"
  "lookups (DefaultResponse st # t) = lookups t"
  "lookups (Response st # t) = lookups t"
  "lookups (HandlerCalled # t) = lookups t"
  by (simp_all add: lookups_def)

lemma trace_emit [simp]: "trace (emit e s) = trace s @ [e]"
  by (simp add: emit_def)

lemma final_state_simps [simp]:
  "final_state (Returns x s) = s" "final_state (Aborts s) = s"
  by (simp_all add: final_state_def)

lemma store_key_values_trace:
  assumes "store_key_values r st s = Some c"
  shows "lookups (trace (final_state c)) = lookups (trace s)"
  using assms
  by (auto simp: store_key_values_def split: option.splits kv_result.splits)

lemma parse_query_string_trace:
  "parse_query_string ext helper s = Some c \<Longrightarrow> lookups (trace (final_state c)) = lookups (trace s)"
  unfolding parse_query_string_def by (rule store_key_values_trace)

lemma parse_cookies_trace:
  "parse_cookies ext helper s = Some c \<Longrightarrow> lookups (trace (final_state c)) = lookups (trace s)"
  unfolding parse_cookies_def by (rule store_key_values_trace)

lemma parse_post_data_trace:
  "parse_post_data ext helper s = Some c \<Longrightarrow> lookups (trace (final_state c)) = lookups (trace s)"
  unfolding parse_post_data_def
  by (auto simp: bind_eq_Some_conv split: if_splits dest: store_key_values_trace)

lemma prepare_for_response_trace:
  assumes "prepare_for_response ext url_map helper s = Some c"
  shows "lookups (trace (final_state c)) = lookups (trace s)"
proof -
  from assms obtain u r1 where u: "deref (val (url (req s))) = Some u"
    and r1: "(if HANDLER_PARSE_QUERY_STRING \<in> map_flags url_map
              then parse_query_string ext helper
                     (s\<lparr>req := (req s)\<lparr>url :=
                        \<lparr>val = Ptr (u + prefix_len url_map),
                         len = size_t (int (len (url (req s))) - int (prefix_len url_map))\<rparr>\<rparr>\<rparr>)
              else Some (Returns ()
                     (s\<lparr>req := (req s)\<lparr>url :=
                        \<lparr>val = Ptr (u + prefix_len url_map),
                         len = size_t (int (len (url (req s))) - int (prefix_len url_map))\<rparr>\<rparr>\<rparr>))) = Some r1"
    and rest1: "(case r1 of
        Aborts sa \<Rightarrow> Some (Aborts sa)
      | Returns _ s1 \<Rightarrow> do {
          request2 \<leftarrow> (if HANDLER_PARSE_IF_MODIFIED_SINCE \<in> map_flags url_map
                       then parse_if_modified_since ext helper (memory s1) (req s1)
                       else Some (req s1));
          request3 \<leftarrow> (if HANDLER_PARSE_RANGE \<in> map_flags url_map
                       then parse_range ext helper (memory s1) request2 else Some request2);
          request4 \<leftarrow> (if HANDLER_PARSE_ACCEPT_ENCODING \<in> map_flags url_map
                       then parse_accept_encoding helper (memory s1) request3 else Some request3);
          r5 \<leftarrow> (if HANDLER_PARSE_COOKIES \<in> map_flags url_map
                 then parse_cookies ext helper (s1\<lparr>req := request4\<rparr>)
                 else Some (Returns () (s1\<lparr>req := request4\<rparr>)));
          (case r5 of
             Aborts sa \<Rightarrow> Some (Aborts sa)
           | Returns _ s5 \<Rightarrow>
               if REQUEST_METHOD_POST \<in> flags (req s5) \<and> HANDLER_PARSE_POST_DATA \<notin> map_flags url_map
               then Some (Returns HTTP_NOT_ALLOWED s5)
               else do {
                 r6 \<leftarrow> (if REQUEST_METHOD_POST \<in> flags (req s5) then parse_post_data ext helper s5
                        else Some (Returns () s5));
                 (case r6 of
                    Aborts sa \<Rightarrow> Some (Aborts sa)
                  | Returns _ s6 \<Rightarrow>
                      if HANDLER_MUST_AUTHORIZE \<in> map_flags url_map \<and>
                         \<not> lwan_http_authorize ext (memory s6) (req s6) (authorization helper)
                      then Some (Returns HTTP_NOT_AUTHORIZED s6)
                      else if HANDLER_REMOVE_LEADING_SLASH \<in> map_flags url_map then do {
                        u6 \<leftarrow> deref (val (url (req s6)));
                        (u', l') \<leftarrow> remove_leading_slash (memory s6) u6 (len (url (req s6)));
                        Some (Returns HTTP_OK (s6\<lparr>req := (req s6)\<lparr>url := \<lparr>val = Ptr u', len = l'\<rparr>\<rparr>\<rparr>))
                      }
                      else Some (Returns HTTP_OK s6))
               })
        }) = Some c"
    by (auto simp: prepare_for_response_def bind_eq_Some_conv Let_def)
  have t1: "lookups (trace (final_state r1)) = lookups (trace s)"
    using r1 by (auto split: if_splits dest: parse_query_string_trace)
  show ?thesis
  proof (cases r1)
    case (Aborts sa)
    then show ?thesis using rest1 t1 by auto
  next
    case (Returns x s1)
    with rest1 obtain request4 r5 where
      r5: "(if HANDLER_PARSE_COOKIES \<in> map_flags url_map then parse_cookies ext helper (s1\<lparr>req := request4\<rparr>)
            else Some (Returns () (s1\<lparr>req := request4\<rparr>))) = Some r5"
      and rest5: "(case r5 of
             Aborts sa \<Rightarrow> Some (Aborts sa)
           | Returns _ s5 \<Rightarrow>
               if REQUEST_METHOD_POST \<in> flags (req s5) \<and> HANDLER_PARSE_POST_DATA \<notin> map_flags url_map
               then Some (Returns HTTP_NOT_ALLOWED s5)
               else do {
                 r6 \<leftarrow> (if REQUEST_METHOD_POST \<in> flags (req s5) then parse_post_data ext helper s5
                        else Some (Returns () s5));
                 (case r6 of
                    Aborts sa \<Rightarrow> Some (Aborts sa)
                  | Returns _ s6 \<Rightarrow>
                      if HANDLER_MUST_AUTHORIZE \<in> map_flags url_map \<and>
                         \<not> lwan_http_authorize ext (memory s6) (req s6) (authorization helper)
                      then Some (Returns HTTP_NOT_AUTHORIZED s6)
                      else if HANDLER_REMOVE_LEADING_SLASH \<in> map_flags url_map then do {
                        u6 \<leftarrow> deref (val (url (req s6)));
                        (u', l') \<leftarrow> remove_leading_slash (memory s6) u6 (len (url (req s6)));
                        Some (Returns HTTP_OK (s6\<lparr>req := (req s6)\<lparr>url := \<lparr>val = Ptr u', len = l'\<rparr>\<rparr>\<rparr>))
                      }
                      else Some (Returns HTTP_OK s6))
               }) = Some c"
      by (auto simp: bind_eq_Some_conv Let_def)
    have t5: "lookups (trace (final_state r5)) = lookups (trace s)"
      using r5 t1 Returns by (auto split: if_splits dest: parse_cookies_trace)
    show ?thesis
    proof (cases r5)
      case (Aborts sa)
      then show ?thesis using rest5 t5 by auto
    next
      case r5r: (Returns y s5)
      show ?thesis
      proof (cases "REQUEST_METHOD_POST \<in> flags (req s5) \<and> HANDLER_PARSE_POST_DATA \<notin> map_flags url_map")
        case True
        then show ?thesis using rest5 t5 r5r by auto
      next
        case False
        with rest5 r5r obtain r6 where
          r6: "(if REQUEST_METHOD_POST \<in> flags (req s5) then parse_post_data ext helper s5
                else Some (Returns () s5)) = Some r6"
          and rest6: "(case r6 of
                    Aborts sa \<Rightarrow> Some (Aborts sa)
                  | Returns _ s6 \<Rightarrow>
                      if HANDLER_MUST_AUTHORIZE \<in> map_flags url_map \<and>
                         \<not> lwan_http_authorize ext (memory s6) (req s6) (authorization helper)
                      then Some (Returns HTTP_NOT_AUTHORIZED s6)
                      else if HANDLER_REMOVE_LEADING_SLASH \<in> map_flags url_map then do {
                        u6 \<leftarrow> deref (val (url (req s6)));
                        (u', l') \<leftarrow> remove_leading_slash (memory s6) u6 (len (url (req s6)));
                        Some (Returns HTTP_OK (s6\<lparr>req := (req s6)\<lparr>url := \<lparr>val = Ptr u', len = l'\<rparr>\<rparr>\<rparr>))
                      }
                      else Some (Returns HTTP_OK s6)) = Some c"
          by (auto simp: bind_eq_Some_conv split: if_splits)
        have t6: "lookups (trace (final_state r6)) = lookups (trace s)"
          using r6 t5 r5r by (auto split: if_splits dest: parse_post_data_trace)
        show ?thesis
        proof (cases r6)
          case (Aborts sa)
          then show ?thesis using rest6 t6 by auto
        next
          case (Returns z s6)
          then show ?thesis using rest6 t6
            by (auto simp: bind_eq_Some_conv split: if_splits)
        qed
      qed
    qed
  qed
qed

lemma parse_fragment_and_query_urls_rewritten:
  assumes "parse_fragment_and_query m r h sp = Some (m', r', h')"
  shows "urls_rewritten h' = urls_rewritten h"
proof -
  have ne: "y \<noteq> NULL \<longleftrightarrow> (\<exists>x. y = Ptr x)" for y by (cases y) auto
  show ?thesis using assms
    by (auto simp: parse_fragment_and_query_def bind_eq_Some_conv Let_def ne split: ptr.splits)
qed

lemma handle_rewrite_result:
  assumes "handle_rewrite h s = Some (again, h', s')"
  shows "urls_rewritten h' = urls_rewritten h + 1 \<and>
         (again \<longleftrightarrow> urls_rewritten h' \<le> 4) \<and>
         trace s' = trace s @ (if again then [] else [DefaultResponse HTTP_INTERNAL_ERROR])"
  using assms
  by (auto simp: handle_rewrite_def bind_eq_Some_conv Let_def split: if_splits
           dest!: parse_fragment_and_query_urls_rewritten)

lemma after_handler_again:
  assumes "after_handler url_map h s = Some (LookupAgain h' s')"
  shows "urls_rewritten h' = urls_rewritten h + 1 \<and> urls_rewritten h' \<le> 4 \<and>
         lookups (trace s') = lookups (trace s)"
  using assms
  by (auto simp: after_handler_def bind_eq_Some_conv Let_def split: prod.splits if_splits
           dest!: handle_rewrite_result)

lemma after_handler_out:
  assumes "after_handler url_map h s = Some (ReachedOut h' s')"
  shows "lookups (trace s') = lookups (trace s) \<and>
         (h' = h \<or>
          urls_rewritten h' = urls_rewritten h + 1 \<and> 4 < urls_rewritten h' \<and>
          last (trace s') = DefaultResponse HTTP_INTERNAL_ERROR)"
  using assms
  by (auto simp: after_handler_def bind_eq_Some_conv Let_def split: prod.splits if_splits
           dest!: handle_rewrite_result)

lemma dispatch_once_cases:
  assumes "dispatch_once ext h s = Some r"
  obtains (not_found) path where "lwan_trie_lookup_prefix ext path = None"
      "r = ReachedOut h (emit (DefaultResponse HTTP_NOT_FOUND) (emit (TrieLookup path) s))"
    | (aborted) path url_map sa where
      "prepare_for_response ext url_map h (emit (TrieLookup path) s) = Some (Aborts sa)"
      "r = DispatchAborted sa"
    | (refused) path url_map status s2 where
      "prepare_for_response ext url_map h (emit (TrieLookup path) s) = Some (Returns status s2)"
      "status \<noteq> HTTP_OK" "r = ReachedOut h (emit (DefaultResponse status) s2)"
    | (handled) path url_map s2 where
      "prepare_for_response ext url_map h (emit (TrieLookup path) s) = Some (Returns HTTP_OK s2)"
      "after_handler url_map h s2 = Some r"
proof -
  from assms obtain path where
    p: "(case lwan_trie_lookup_prefix ext path of
        None \<Rightarrow> Some (ReachedOut h (emit (DefaultResponse HTTP_NOT_FOUND) (emit (TrieLookup path) s)))
      | Some url_map \<Rightarrow> do {
          prepared \<leftarrow> prepare_for_response ext url_map h (emit (TrieLookup path) s);
          (case prepared of
             Aborts sa \<Rightarrow> Some (DispatchAborted sa)
           | Returns status s2 \<Rightarrow>
               if status \<noteq> HTTP_OK then Some (ReachedOut h (emit (DefaultResponse status) s2))
               else after_handler url_map h s2)
        }) = Some r"
    by (auto simp: dispatch_once_def bind_eq_Some_conv Let_def)
  show thesis
  proof (cases "lwan_trie_lookup_prefix ext path")
    case None
    then show ?thesis using p not_found by simp
  next
    case (Some url_map)
    with p obtain prepared where
      q: "prepare_for_response ext url_map h (emit (TrieLookup path) s) = Some prepared"
         "(case prepared of
             Aborts sa \<Rightarrow> Some (DispatchAborted sa)
           | Returns status s2 \<Rightarrow>
               if status \<noteq> HTTP_OK then Some (ReachedOut h (emit (DefaultResponse status) s2))
               else after_handler url_map h s2) = Some r"
      by (auto simp: bind_eq_Some_conv)
    show ?thesis
    proof (cases prepared)
      case (Aborts sa)
      then show ?thesis using q aborted by simp
    next
      case (Returns status s2)
      then show ?thesis using q refused[of url_map path status s2] handled[of url_map path s2]
        by (cases "status = HTTP_OK") simp_all
    qed
  qed
qed

lemma dispatch_once_lookups:
  assumes "dispatch_once ext h s = Some r"
  shows "(case r of
            ReachedOut h' s' \<Rightarrow> lookups (trace s') = Suc (lookups (trace s)) \<and>
              (h' = h \<or>
               urls_rewritten h' = urls_rewritten h + 1 \<and> 4 < urls_rewritten h' \<and>
               last (trace s') = DefaultResponse HTTP_INTERNAL_ERROR)
          | DispatchAborted s' \<Rightarrow> lookups (trace s') = Suc (lookups (trace s))
          | LookupAgain h' s' \<Rightarrow> lookups (trace s') = Suc (lookups (trace s)) \<and>
              urls_rewritten h' = urls_rewritten h + 1 \<and> urls_rewritten h' \<le> 4)"
  using assms
proof (cases rule: dispatch_once_cases)
  case (not_found path)
  then show ?thesis by simp
next
  case (aborted path url_map sa)
  then show ?thesis using prepare_for_response_trace[OF aborted(1)] by simp
next
  case (refused path url_map status s2)
  then show ?thesis using prepare_for_response_trace[OF refused(1)] by simp
next
  case (handled path url_map s2)
  note t = prepare_for_response_trace[OF handled(1)]
  show ?thesis
  proof (cases r)
    case (ReachedOut h' s')
    then show ?thesis using after_handler_out[of url_map h s2 h' s'] handled(2) t by auto
  next
    case (DispatchAborted s')
    then show ?thesis using handled(2)
      by (auto simp: after_handler_def bind_eq_Some_conv Let_def split: prod.splits if_splits)
  next
    case (LookupAgain h' s')
    then show ?thesis using after_handler_again[of url_map h s2 h' s'] handled(2) t by auto
  qed
qed

lemma handle_rewrite_total:
  assumes "val (url (req s)) = Ptr u" and "u + len (url (req s)) \<le> length (memory s)"
    and "int (length (memory s)) < 2 ^ 64"
  shows "\<exists>h1 s1. handle_rewrite h s = Some (urls_rewritten h < 4, h1, s1) \<and>
           urls_rewritten h1 = urls_rewritten h + 1 \<and>
           trace s1 = trace s @
             (if urls_rewritten h < 4 then [] else [DefaultResponse HTTP_INTERNAL_ERROR])"
proof -
  let ?request0 = "(req s)\<lparr>flags := flags (req s) - {RESPONSE_URL_REWRITTEN}\<rparr>"
  have "\<exists>m' request' helper'.
          parse_fragment_and_query (memory s) ?request0 h (u + len (url (req s))) =
            Some (m', request', helper') \<and>
          flags request' = flags ?request0 \<and> length m' = length (memory s) \<and>
          (\<forall>i. u + len (url (req s)) \<le> i \<longrightarrow> m' ! i = memory s ! i)"
  proof (rule parse_fragment_and_query_total)
    show "val (url ?request0) = Ptr u" using assms(1) by simp
    show "u + len (url (req s)) = u + len (url ?request0)" by simp
    show "u + len (url (req s)) \<le> length (memory s)" by (rule assms(2))
    show "int (length (memory s)) < 2 ^ 64" by (rule assms(3))
  qed
  then obtain m' request' helper' where
    pfq: "parse_fragment_and_query (memory s) ?request0 h (u + len (url (req s))) =
            Some (m', request', helper')"
    by blast
  have c: "urls_rewritten helper' = urls_rewritten h"
    by (rule parse_fragment_and_query_urls_rewritten[OF pfq])
  show ?thesis
  proof (cases "urls_rewritten h < 4")
    case True
    then have "handle_rewrite h s =
        Some (True, helper'\<lparr>urls_rewritten := urls_rewritten helper' + 1\<rparr>,
              s\<lparr>memory := m', req := request'\<rparr>)"
      using assms(1) pfq c by (simp add: handle_rewrite_def deref_def Let_def)
    then show ?thesis using True c by simp
  next
    case False
    then have "handle_rewrite h s =
        Some (False, helper'\<lparr>urls_rewritten := urls_rewritten helper' + 1\<rparr>,
              emit (DefaultResponse HTTP_INTERNAL_ERROR) (s\<lparr>memory := m', req := request'\<rparr>))"
      using assms(1) pfq c by (simp add: handle_rewrite_def deref_def Let_def)
    then show ?thesis using False c by simp
  qed
qed

lemma prepare_for_response_returns_trace:
  assumes "prepare_for_response ext url_map helper s = Some (Returns status s')"
  shows "lookups (trace s') = lookups (trace s)"
  using prepare_for_response_trace[OF assms] by simp

lemma dispatch_rewrite_cycle:
  assumes u: "deref (val (url (req s))) = Some u" and path: "c_string (memory s) u = Some path"
    and found: "lwan_trie_lookup_prefix ext path = Some url_map"
    and prepared: "prepare_for_response ext url_map h (emit (TrieLookup path) s) =
                     Some (Returns HTTP_OK s2)"
    and handled: "handler url_map (memory s2) (req s2) = (status, m', request')"
    and can: "HANDLER_CAN_REWRITE_URL \<in> map_flags url_map"
    and asked: "RESPONSE_URL_REWRITTEN \<in> flags request'"
    and safe: "val (url request') = Ptr u'" "u' + len (url request') \<le> length m'"
              "int (length m') < 2 ^ 64"
  shows "\<exists>h1 s3.
           handle_rewrite h (emit HandlerCalled (s2\<lparr>memory := m', req := request'\<rparr>)) =
             Some (urls_rewritten h < 4, h1, s3) \<and>
           urls_rewritten h1 = urls_rewritten h + 1 \<and>
           trace s3 = trace s2 @ [HandlerCalled] @
             (if urls_rewritten h < 4 then [] else [DefaultResponse HTTP_INTERNAL_ERROR]) \<and>
           lookups (trace s3) = Suc (lookups (trace s)) \<and>
           lookup_again ext h s =
             (if urls_rewritten h < 4 then lookup_again ext h1 s3 else Some (Returns h1 s3))"
proof -
  let ?s3 = "emit HandlerCalled (s2\<lparr>memory := m', req := request'\<rparr>)"
  have "\<exists>h1 s1. handle_rewrite h ?s3 = Some (urls_rewritten h < 4, h1, s1) \<and>
           urls_rewritten h1 = urls_rewritten h + 1 \<and>
           trace s1 = trace ?s3 @
             (if urls_rewritten h < 4 then [] else [DefaultResponse HTTP_INTERNAL_ERROR])"
  proof (rule handle_rewrite_total)
    show "val (url (req ?s3)) = Ptr u'" using safe(1) by (simp add: emit_def)
    show "u' + len (url (req ?s3)) \<le> length (memory ?s3)" using safe(2) by (simp add: emit_def)
    show "int (length (memory ?s3)) < 2 ^ 64" using safe(3) by (simp add: emit_def)
  qed
  then obtain h1 s3 where
    hr: "handle_rewrite h ?s3 = Some (urls_rewritten h < 4, h1, s3)"
    and c: "urls_rewritten h1 = urls_rewritten h + 1"
    and t: "trace s3 = trace ?s3 @
             (if urls_rewritten h < 4 then [] else [DefaultResponse HTTP_INTERNAL_ERROR])"
    by blast
  have ah: "after_handler url_map h s2 =
              Some (if urls_rewritten h < 4 then LookupAgain h1 s3 else ReachedOut h1 s3)"
    using handled can asked hr by (simp add: after_handler_def Let_def)
  have d: "dispatch_once ext h s =
              Some (if urls_rewritten h < 4 then LookupAgain h1 s3 else ReachedOut h1 s3)"
    using u path found prepared ah by (simp add: dispatch_once_def Let_def)
  have la: "lookup_again ext h s =
             (if urls_rewritten h < 4 then lookup_again ext h1 s3 else Some (Returns h1 s3))"
    by (subst lookup_again.simps) (simp add: d)
  have l2: "lookups (trace s2) = Suc (lookups (trace s))"
    using prepare_for_response_returns_trace[OF prepared] by simp
  have t': "trace s3 = trace s2 @ [HandlerCalled] @
             (if urls_rewritten h < 4 then [] else [DefaultResponse HTTP_INTERNAL_ERROR])"
    using t by simp
  have l3: "lookups (trace s3) = Suc (lookups (trace s))"
    using t' l2 by simp
  show ?thesis using hr c t' l3 la by blast
qed

lemma lookup_again_lookups_bound:
  assumes "lookup_again ext helper s = Some r" and "urls_rewritten helper \<le> 4"
  shows "int (lookups (trace (final_state r))) \<le> int (lookups (trace s)) + (5 - urls_rewritten helper)"
  using assms
proof (induction ext helper s rule: lookup_again.induct)
  case (1 ext helper s)
  note unf = "1.prems"(1)[unfolded lookup_again.simps[of ext helper s]]
  show ?case
  proof (cases "dispatch_once ext helper s")
    case None
    then show ?thesis using unf by simp
  next
    case (Some d)
    note l = dispatch_once_lookups[OF Some]
    show ?thesis
    proof (cases d)
      case (ReachedOut h1 s1)
      then have "r = Returns h1 s1" using unf Some by simp
      then show ?thesis using l ReachedOut "1.prems"(2) by auto
    next
      case (DispatchAborted s1)
      then have "r = Aborts s1" using unf Some by simp
      then show ?thesis using l DispatchAborted "1.prems"(2) by auto
    next
      case (LookupAgain h1 s1)
      then have again: "lookup_again ext h1 s1 = Some r" using unf Some by simp
      have c: "urls_rewritten h1 = urls_rewritten helper + 1" "urls_rewritten h1 \<le> 4"
        "lookups (trace s1) = Suc (lookups (trace s))"
        using l LookupAgain by simp_all
      from "1.IH"[OF Some LookupAgain again c(2)] show ?thesis using c by simp
    qed
  qed
qed

lemma lookup_again_returns:
  assumes "lookup_again ext helper s = Some (Returns helper' s')"
    and "urls_rewritten helper \<le> 4"
  shows "urls_rewritten helper \<le> urls_rewritten helper' \<and> urls_rewritten helper' \<le> 5 \<and>
         int (lookups (trace s')) = int (lookups (trace s)) +
           (urls_rewritten helper' - urls_rewritten helper) +
           (if urls_rewritten helper' = 5 then 0 else 1) \<and>
         (urls_rewritten helper' = 5 \<longrightarrow> last (trace s') = DefaultResponse HTTP_INTERNAL_ERROR)"
  using assms
proof (induction ext helper s rule: lookup_again.induct)
  case (1 ext helper s)
  note unf = "1.prems"(1)[unfolded lookup_again.simps[of ext helper s]]
  show ?case
  proof (cases "dispatch_once ext helper s")
    case None
    then show ?thesis using unf by simp
  next
    case (Some r)
    note d = dispatch_once_lookups[OF Some]
    show ?thesis
    proof (cases r)
      case (ReachedOut h1 s1)
      then have "h1 = helper'" "s1 = s'" using unf Some by simp_all
      then show ?thesis using d ReachedOut "1.prems"(2) by auto
    next
      case (DispatchAborted s1)
      then show ?thesis using unf Some by simp
    next
      case (LookupAgain h1 s1)
      then have again: "lookup_again ext h1 s1 = Some (Returns helper' s')" using unf Some by simp
      have c: "urls_rewritten h1 = urls_rewritten helper + 1" "urls_rewritten h1 \<le> 4"
        "lookups (trace s1) = Suc (lookups (trace s))"
        using d LookupAgain by simp_all
      from "1.IH"[OF Some LookupAgain again c(2)] show ?thesis using c by auto
    qed
  qed
qed

text \<open>
  C8, amended.  Every call of \<open>handle_rewrite\<close> increments the counter and then compares
  it with 4, so the counter reaches 5 when the fifth rewrite is attempted.  In a dispatch
  cycle whose handler asks for a rewrite (the map can rewrite and the handler has set
  \<^verbatim>\<open>RESPONSE_URL_REWRITTEN\<close>), with the URL inside memory: the counter goes up by one; if it
  was below 4 the loop goes back to the lookup; otherwise the driver sends the default
  response with \<^verbatim>\<open>HTTP_INTERNAL_ERROR\<close> and the loop returns, the lookup of this cycle being
  the last.  For a run of the loop that starts with a counter of at most 4, whether it
  returns or aborts the coroutine, the prefix trie is looked up at most
  \<open>5 - urls_rewritten helper\<close> times; when it returns, the counter has not decreased and
  is 5 at most, the trie was looked up once at the start and once more after each rewrite
  that left the counter at 4 or less, and a counter of 5 means that the last thing the
  driver did is that default response.
\<close>

theorem lookup_again_rewrite_limit:
  "(val (url (req sr)) = Ptr ur \<and> ur + len (url (req sr)) \<le> length (memory sr) \<and>
    int (length (memory sr)) < 2 ^ 64 \<longrightarrow>
      (\<exists>h1 s1. handle_rewrite hr sr = Some (urls_rewritten hr < 4, h1, s1) \<and>
          urls_rewritten h1 = urls_rewritten hr + 1 \<and>
          trace s1 = trace sr @
            (if urls_rewritten hr < 4 then [] else [DefaultResponse HTTP_INTERNAL_ERROR]))) \<and>
   (deref (val (url (req s))) = Some u \<and> c_string (memory s) u = Some path \<and>
    lwan_trie_lookup_prefix ext path = Some url_map \<and>
    prepare_for_response ext url_map h (emit (TrieLookup path) s) = Some (Returns HTTP_OK sp) \<and>
    handler url_map (memory sp) (req sp) = (status, m', request') \<and>
    HANDLER_CAN_REWRITE_URL \<in> map_flags url_map \<and> RESPONSE_URL_REWRITTEN \<in> flags request' \<and>
    val (url request') = Ptr u' \<and> u' + len (url request') \<le> length m' \<and>
    int (length m') < 2 ^ 64 \<longrightarrow>
      (\<exists>h1 s3.
          handle_rewrite h (emit HandlerCalled (sp\<lparr>memory := m', req := request'\<rparr>)) =
            Some (urls_rewritten h < 4, h1, s3) \<and>
          urls_rewritten h1 = urls_rewritten h + 1 \<and>
          trace s3 = trace sp @ [HandlerCalled] @
            (if urls_rewritten h < 4 then [] else [DefaultResponse HTTP_INTERNAL_ERROR]) \<and>
          lookups (trace s3) = Suc (lookups (trace s)) \<and>
          lookup_again ext h s =
            (if urls_rewritten h < 4 then lookup_again ext h1 s3 else Some (Returns h1 s3)))) \<and>
   (lookup_again ext helper s = Some r \<and> urls_rewritten helper \<le> 4 \<longrightarrow>
      int (lookups (trace (final_state r))) \<le>
        int (lookups (trace s)) + (5 - urls_rewritten helper) \<and>
      (\<forall>helper' s'. r = Returns helper' s' \<longrightarrow>
         urls_rewritten helper \<le> urls_rewritten helper' \<and> urls_rewritten helper' \<le> 5 \<and>
         int (lookups (trace s')) = int (lookups (trace s)) +
           (urls_rewritten helper' - urls_rewritten helper) +
           (if urls_rewritten helper' = 5 then 0 else 1) \<and>
         (urls_rewritten helper' = 5 \<longrightarrow>
            last (trace s') = DefaultResponse HTTP_INTERNAL_ERROR)))"
proof (intro conjI impI)
  assume "val (url (req sr)) = Ptr ur \<and> ur + len (url (req sr)) \<le> length (memory sr) \<and>
    int (length (memory sr)) < 2 ^ 64"
  then show "\<exists>h1 s1. handle_rewrite hr sr = Some (urls_rewritten hr < 4, h1, s1) \<and>
          urls_rewritten h1 = urls_rewritten hr + 1 \<and>
          trace s1 = trace sr @
            (if urls_rewritten hr < 4 then [] else [DefaultResponse HTTP_INTERNAL_ERROR])"
    using handle_rewrite_total[of sr ur hr] by blast
next
  assume a: "deref (val (url (req s))) = Some u \<and> c_string (memory s) u = Some path \<and>
    lwan_trie_lookup_prefix ext path = Some url_map \<and>
    prepare_for_response ext url_map h (emit (TrieLookup path) s) = Some (Returns HTTP_OK sp) \<and>
    handler url_map (memory sp) (req sp) = (status, m', request') \<and>
    HANDLER_CAN_REWRITE_URL \<in> map_flags url_map \<and> RESPONSE_URL_REWRITTEN \<in> flags request' \<and>
    val (url request') = Ptr u' \<and> u' + len (url request') \<le> length m' \<and>
    int (length m') < 2 ^ 64"
  show "\<exists>h1 s3.
          handle_rewrite h (emit HandlerCalled (sp\<lparr>memory := m', req := request'\<rparr>)) =
            Some (urls_rewritten h < 4, h1, s3) \<and>
          urls_rewritten h1 = urls_rewritten h + 1 \<and>
          trace s3 = trace sp @ [HandlerCalled] @
            (if urls_rewritten h < 4 then [] else [DefaultResponse HTTP_INTERNAL_ERROR]) \<and>
          lookups (trace s3) = Suc (lookups (trace s)) \<and>
          lookup_again ext h s =
            (if urls_rewritten h < 4 then lookup_again ext h1 s3 else Some (Returns h1 s3))"
    by (rule dispatch_rewrite_cycle[of s u path ext url_map h sp status m' request' u'])
       (use a in blast)+
next
  assume b: "lookup_again ext helper s = Some r \<and> urls_rewritten helper \<le> 4"
  then show "int (lookups (trace (final_state r))) \<le>
        int (lookups (trace s)) + (5 - urls_rewritten helper)"
    using lookup_again_lookups_bound[of ext helper s r] by blast
  show "\<forall>helper' s'. r = Returns helper' s' \<longrightarrow>
         urls_rewritten helper \<le> urls_rewritten helper' \<and> urls_rewritten helper' \<le> 5 \<and>
         int (lookups (trace s')) = int (lookups (trace s)) +
           (urls_rewritten helper' - urls_rewritten helper) +
           (if urls_rewritten helper' = 5 then 0 else 1) \<and>
         (urls_rewritten helper' = 5 \<longrightarrow>
            last (trace s') = DefaultResponse HTTP_INTERNAL_ERROR)"
  proof (intro allI impI)
    fix helper' s' assume "r = Returns helper' s'"
    then have "lookup_again ext helper s = Some (Returns helper' s')" using b by simp
    from lookup_again_returns[OF this] b
    show "urls_rewritten helper \<le> urls_rewritten helper' \<and> urls_rewritten helper' \<le> 5 \<and>
         int (lookups (trace s')) = int (lookups (trace s)) +
           (urls_rewritten helper' - urls_rewritten helper) +
           (if urls_rewritten helper' = 5 then 0 else 1) \<and>
         (urls_rewritten helper' = 5 \<longrightarrow>
            last (trace s') = DefaultResponse HTTP_INTERNAL_ERROR)"
      by blast
  qed
qed

theorem lookup_again_rewrite_limit_witness:
  "val (url (req ex_path_state)) = Ptr 0 \<and> 0 + len (url (req ex_path_state)) \<le> length (memory ex_path_state) \<and>
   int (length (memory ex_path_state)) < 2 ^ 64 \<and>
   handle_rewrite ex_fifth_helper ex_path_state =
     Some (False, ex_path_helper\<lparr>urls_rewritten := 5\<rparr>,
           ex_path_state\<lparr>trace := [DefaultResponse HTTP_INTERNAL_ERROR]\<rparr>) \<and>
   deref (val (url (req ex_path_state))) = Some 0 \<and>
   c_string (memory ex_path_state) 0 = Some (lit ''/a'') \<and>
   lwan_trie_lookup_prefix (ex_externals []) (lit ''/a'') = Some ex_rewriter \<and>
   prepare_for_response (ex_externals []) ex_rewriter ex_fifth_helper
       (emit (TrieLookup (lit ''/a'')) ex_path_state) = Some (Returns HTTP_OK ex_looked_up_state) \<and>
   handler ex_rewriter (memory ex_looked_up_state) (req ex_looked_up_state) =
     (HTTP_OK, lit ''/a'' @ [0], ex_rewrite_asked) \<and>
   HANDLER_CAN_REWRITE_URL \<in> map_flags ex_rewriter \<and>
   RESPONSE_URL_REWRITTEN \<in> flags ex_rewrite_asked \<and>
   val (url ex_rewrite_asked) = Ptr 0 \<and> 0 + len (url ex_rewrite_asked) \<le> length (lit ''/a'' @ [0]) \<and>
   int (length (lit ''/a'' @ [0])) < 2 ^ 64 \<and>
   urls_rewritten ex_fifth_helper = 4 \<and>
   lookup_again (ex_externals []) ex_fifth_helper ex_path_state =
     Some (Returns (ex_path_helper\<lparr>urls_rewritten := 5\<rparr>) ex_fifth_state) \<and>
   lookups (trace ex_fifth_state) = Suc (lookups (trace ex_path_state)) \<and>
   urls_rewritten ex_path_helper \<le> 4 \<and>
   lookup_again (ex_externals []) ex_path_helper ex_path_state =
     Some (Returns (ex_path_helper\<lparr>urls_rewritten := 5\<rparr>) ex_rewritten_state) \<and>
   urls_rewritten (ex_path_helper\<lparr>urls_rewritten := 5\<rparr>) = 5 \<and>
   int (lookups (trace ex_rewritten_state)) =
     int (lookups (trace ex_path_state)) + (5 - urls_rewritten ex_path_helper) \<and>
   lookups (trace ex_rewritten_state) = 5 \<and>
   last (trace ex_rewritten_state) = DefaultResponse HTTP_INTERNAL_ERROR \<and>
   status_code HTTP_INTERNAL_ERROR = 500"
proof -
  have a1: "val (url (req ex_path_state)) = Ptr 0 \<and>
            0 + len (url (req ex_path_state)) \<le> length (memory ex_path_state) \<and>
            int (length (memory ex_path_state)) < 2 ^ 64"
    by (simp add: ex_path_state_def lit_def)
  have c4: "urls_rewritten ex_fifth_helper = 4" by (simp add: ex_fifth_helper_def)
  from lookup_again_rewrite_limit[THEN conjunct1, rule_format, OF a1, of ex_fifth_helper]
  obtain ha sa where
    ra: "handle_rewrite ex_fifth_helper ex_path_state = Some (False, ha, sa)"
    and ca: "urls_rewritten ha = 5"
    and ta: "trace sa = trace ex_path_state @ [DefaultResponse HTTP_INTERNAL_ERROR]"
    using c4 by auto
  have a2: "handle_rewrite ex_fifth_helper ex_path_state =
     Some (False, ex_path_helper\<lparr>urls_rewritten := 5\<rparr>,
           ex_path_state\<lparr>trace := [DefaultResponse HTTP_INTERNAL_ERROR]\<rparr>)"
    by code_simp
  have b1: "deref (val (url (req ex_path_state))) = Some 0" by code_simp
  have b2: "c_string (memory ex_path_state) 0 = Some (lit ''/a'')" by code_simp
  have b3: "lwan_trie_lookup_prefix (ex_externals []) (lit ''/a'') = Some ex_rewriter"
    by (simp add: ex_externals_def)
  have b4: "prepare_for_response (ex_externals []) ex_rewriter ex_fifth_helper
       (emit (TrieLookup (lit ''/a'')) ex_path_state) = Some (Returns HTTP_OK ex_looked_up_state)"
    by code_simp
  have b5: "handler ex_rewriter (memory ex_looked_up_state) (req ex_looked_up_state) =
     (HTTP_OK, lit ''/a'' @ [0], ex_rewrite_asked)"
    by code_simp
  have b6: "HANDLER_CAN_REWRITE_URL \<in> map_flags ex_rewriter" by (simp add: ex_rewriter_def)
  have b7: "RESPONSE_URL_REWRITTEN \<in> flags ex_rewrite_asked" by (simp add: ex_rewrite_asked_def)
  have b8: "val (url ex_rewrite_asked) = Ptr 0 \<and>
            0 + len (url ex_rewrite_asked) \<le> length (lit ''/a'' @ [0]) \<and>
            int (length (lit ''/a'' @ [0])) < 2 ^ 64"
    by (simp add: ex_rewrite_asked_def lit_def)
  have hyp: "deref (val (url (req ex_path_state))) = Some 0 \<and>
    c_string (memory ex_path_state) 0 = Some (lit ''/a'') \<and>
    lwan_trie_lookup_prefix (ex_externals []) (lit ''/a'') = Some ex_rewriter \<and>
    prepare_for_response (ex_externals []) ex_rewriter ex_fifth_helper
       (emit (TrieLookup (lit ''/a'')) ex_path_state) = Some (Returns HTTP_OK ex_looked_up_state) \<and>
    handler ex_rewriter (memory ex_looked_up_state) (req ex_looked_up_state) =
       (HTTP_OK, lit ''/a'' @ [0], ex_rewrite_asked) \<and>
    HANDLER_CAN_REWRITE_URL \<in> map_flags ex_rewriter \<and>
    RESPONSE_URL_REWRITTEN \<in> flags ex_rewrite_asked \<and>
    val (url ex_rewrite_asked) = Ptr 0 \<and>
    0 + len (url ex_rewrite_asked) \<le> length (lit ''/a'' @ [0]) \<and>
    int (length (lit ''/a'' @ [0])) < 2 ^ 64"
    using b1 b2 b3 b4 b5 b6 b7 b8 by blast
  from lookup_again_rewrite_limit[THEN conjunct2, THEN conjunct1, rule_format, OF hyp]
  obtain hb sb where
    cb: "urls_rewritten hb = urls_rewritten ex_fifth_helper + 1"
    and tb: "trace sb = trace ex_looked_up_state @ [HandlerCalled] @
               (if urls_rewritten ex_fifth_helper < 4 then []
                else [DefaultResponse HTTP_INTERNAL_ERROR])"
    and lb: "lookups (trace sb) = Suc (lookups (trace ex_path_state))"
    and rb: "lookup_again (ex_externals []) ex_fifth_helper ex_path_state =
               (if urls_rewritten ex_fifth_helper < 4
                then lookup_again (ex_externals []) hb sb else Some (Returns hb sb))"
    by blast
  have b9: "lookup_again (ex_externals []) ex_fifth_helper ex_path_state =
     Some (Returns (ex_path_helper\<lparr>urls_rewritten := 5\<rparr>) ex_fifth_state)"
    by code_simp
  have sb: "sb = ex_fifth_state" using rb b9 c4 by simp
  have b10: "lookups (trace ex_fifth_state) = Suc (lookups (trace ex_path_state))"
    using lb sb by simp
  have h1: "urls_rewritten ex_path_helper \<le> 4" by (simp add: ex_path_helper_def init_helper_def)
  have h2: "lookup_again (ex_externals []) ex_path_helper ex_path_state =
     Some (Returns (ex_path_helper\<lparr>urls_rewritten := 5\<rparr>) ex_rewritten_state)"
    by code_simp
  have h3: "lookups (trace ex_rewritten_state) = 5" by (simp add: ex_rewritten_state_def)
  have run: "lookup_again (ex_externals []) ex_path_helper ex_path_state =
               Some (Returns (ex_path_helper\<lparr>urls_rewritten := 5\<rparr>) ex_rewritten_state) \<and>
             urls_rewritten ex_path_helper \<le> 4"
    using h1 h2 by blast
  note c = lookup_again_rewrite_limit[THEN conjunct2, THEN conjunct2, rule_format, OF run]
  have c5: "int (lookups (trace ex_rewritten_state)) =
     int (lookups (trace ex_path_state)) + (5 - urls_rewritten ex_path_helper) \<and>
     last (trace ex_rewritten_state) = DefaultResponse HTTP_INTERNAL_ERROR"
    using c[THEN conjunct2] by simp
  have c6: "status_code HTTP_INTERNAL_ERROR = 500" by simp
  have c7: "urls_rewritten (ex_path_helper\<lparr>urls_rewritten := 5\<rparr>) = 5" by simp
  show ?thesis
    using a1 a2 b1 b2 b3 b4 b5 b6 b7 b8 c4 b9 b10 h1 h2 h3 c5 c6 c7 by blast
qed

text \<open>
  C8 as stated fails: with a handler that rewrites the URL every time, the request
  \<^verbatim>\<open>GET /a HTTP/1.1\<close> leaves the counter at 5, after five lookups and the response 500.
\<close>

theorem urls_rewritten_exceeds_four_counterexample:
  "(case lwan_process_request (ex_externals [ReadBytes ex_get]) \<lparr>val = Ptr 0, len = 0\<rparr> NULL
           (ex_fresh 4097) of
      Some (Returns (p, h) s') \<Rightarrow>
        urls_rewritten h = 5 \<and> lookups (trace s') = 5 \<and>
        responses (trace s') = [DefaultResponse HTTP_INTERNAL_ERROR]
    | _ \<Rightarrow> False)"
  by code_simp

section \<open>Bad requests and the pipelined tail\<close>

lemma responses_simps [simp]:
  "responses [] = []"
  "responses (t @ u) = responses t @ responses u"
  "responses (TrieLookup p # t) = responses t"
  "responses (Yielded # t) = responses t"
  "responses (Aborted_coro # t) = responses t"
  "responses (DefaultResponse st # t) = DefaultResponse st # responses t"
  "responses (Response st # t) = Response st # responses t"
  "responses (HandlerCalled # t) = responses t"
  by (simp_all add: responses_def)

lemma trace_conn_flag [simp]:
  "trace (set_conn_flag f s) = trace s" "trace (clear_conn_flag f s) = trace s"
  by (simp_all add: set_conn_flag_def clear_conn_flag_def)

lemma try_to_finalize_request:
  assumes "try_to_finalize read_request_finalizer buffer_size total_read helper s = Some (verdict, helper', s')"
  shows "responses (trace s') = responses (trace s) \<and> verdict \<noteq> Some HTTP_BAD_REQUEST \<and>
         (total_read < 4 \<longrightarrow> verdict = None \<and> helper' = helper)"
proof -
  from assms obtain v h1 where
    f: "read_request_finalizer (memory s) total_read buffer_size helper = Some (v, h1)"
    and r: "(case v of
        FINALIZER_DONE \<Rightarrow> do {
          b \<leftarrow> deref (val (buffer h1));
          m' \<leftarrow> poke (memory s) (b + len (buffer h1)) 0;
          Some (Some HTTP_OK, h1, (clear_conn_flag CONN_MUST_READ s)\<lparr>memory := m'\<rparr>)
        }
      | FINALIZER_TRY_AGAIN \<Rightarrow> Some (None, h1, s)
      | FINALIZER_YIELD_TRY_AGAIN \<Rightarrow>
          Some (None, h1, emit Yielded (set_conn_flag CONN_MUST_READ s))
      | FINALIZER_ERROR_TOO_LARGE \<Rightarrow> Some (Some HTTP_TOO_LARGE, h1, s)) = Some (verdict, helper', s')"
    by (auto simp: try_to_finalize_def bind_eq_Some_conv)
  have small: "v = FINALIZER_YIELD_TRY_AGAIN \<and> h1 = helper" if "total_read < 4"
    using f that by (simp add: read_request_finalizer_def)
  show ?thesis using r small
    by (cases v) (auto simp: bind_eq_Some_conv)
qed

lemma read_loop_request:
  assumes "read_loop rd read_request_finalizer buffer_size total_read helper s n = Some r"
  shows "responses (trace (final_state r)) = responses (trace s) \<and>
         (\<forall>helper' s'. r = Returns (HTTP_BAD_REQUEST, helper') s' \<longrightarrow> total_read = 0 \<and> helper' = helper)"
  using assms
proof (induction n arbitrary: total_read helper s)
  case 0
  then show ?case by auto
next
  case (Suc n)
  let ?s0 = "s\<lparr>reads_done := Suc (reads_done s)\<rparr>"
  show ?case
  proof (cases "rd (reads_done s)")
    case (ReadError e)
    show ?thesis
    proof (cases "e = EAGAIN \<or> e = EINTR")
      case True
      then have "read_loop rd read_request_finalizer buffer_size total_read helper
                   (emit Yielded (set_conn_flag CONN_MUST_READ ?s0)) n = Some r"
        using Suc.prems ReadError by (simp add: Let_def)
      from Suc.IH[OF this] show ?thesis by simp
    next
      case False
      then show ?thesis using Suc.prems ReadError by (auto simp: Let_def split: if_splits)
    qed
  next
    case (ReadBytes offered)
    let ?got = "take (buffer_size - total_read) offered"
    show ?thesis
    proof (cases "?got = []")
      case True
      then show ?thesis using Suc.prems ReadBytes by (auto simp: Let_def)
    next
      case False
      then have pos: "0 < total_read + length ?got" by simp
      have step: "do {
                   b \<leftarrow> deref (val (buffer helper));
                   m' \<leftarrow> write_bytes (memory ?s0) (b + total_read) ?got;
                   (verdict, helper2, s2) \<leftarrow>
                     try_to_finalize read_request_finalizer buffer_size (total_read + length ?got)
                       (helper\<lparr>buffer := (buffer helper)\<lparr>len := total_read + length ?got\<rparr>\<rparr>)
                       (?s0\<lparr>memory := m'\<rparr>);
                   (case verdict of
                      Some status \<Rightarrow> Some (Returns (status, helper2) s2)
                    | None \<Rightarrow>
                        read_loop rd read_request_finalizer buffer_size (total_read + length ?got)
                          helper2 s2 n)
                 } = Some r"
        using Suc.prems ReadBytes False by (simp add: Let_def cong: option.case_cong)
      then obtain m' verdict helper2 s2 where
        t: "try_to_finalize read_request_finalizer buffer_size (total_read + length ?got)
              (helper\<lparr>buffer := (buffer helper)\<lparr>len := total_read + length ?got\<rparr>\<rparr>)
              (?s0\<lparr>memory := m'\<rparr>) = Some (verdict, helper2, s2)"
        and k: "(case verdict of
                      Some status \<Rightarrow> Some (Returns (status, helper2) s2)
                    | None \<Rightarrow>
                        read_loop rd read_request_finalizer buffer_size (total_read + length ?got)
                          helper2 s2 n) = Some r"
        by (auto simp: bind_eq_Some_conv)
      note f = try_to_finalize_request[OF t]
      show ?thesis
      proof (cases verdict)
        case None
        then have "read_loop rd read_request_finalizer buffer_size (total_read + length ?got)
                          helper2 s2 n = Some r" using k by simp
        note ih = Suc.IH[OF this]
        have nz: "total_read + length ?got \<noteq> 0" using pos by (rule less_imp_neq[THEN not_sym])
        from ih nz have no: "r \<noteq> Returns (HTTP_BAD_REQUEST, h') s'" for h' s' by blast
        show ?thesis using ih[THEN conjunct1] f[THEN conjunct1] no by simp
      next
        case (Some status)
        then show ?thesis using k f by auto
      qed
    qed
  qed
qed

lemma read_request_responses:
  assumes "read_request rd (init_helper buf nr) s = Some r"
  shows "responses (trace (final_state r)) = responses (trace s) \<and>
         (\<forall>helper s1. r = Returns (HTTP_BAD_REQUEST, helper) s1 \<longrightarrow>
            next_request helper = nr \<and> (nr \<noteq> NULL \<longrightarrow> len (buffer helper) = 0))"
proof (cases nr)
  case NULL
  then have "read_loop rd read_request_finalizer DEFAULT_BUFFER_SIZE 0 (init_helper buf nr) s 16 = Some r"
    using assms by (simp add: read_request_def read_from_request_socket_def init_helper_def)
  from read_loop_request[OF this] show ?thesis using NULL by (auto simp: init_helper_def)
next
  case (Ptr p)
  define h where "h = init_helper buf nr"
  have nh: "next_request h = Ptr p" "buffer h = buf" by (simp_all add: h_def init_helper_def Ptr)
  from assms nh obtain len' m' verdict helper2 s2 where
    t: "try_to_finalize read_request_finalizer DEFAULT_BUFFER_SIZE len'
          (h\<lparr>buffer := buf\<lparr>len := len'\<rparr>\<rparr>) (s\<lparr>memory := m'\<rparr>) = Some (verdict, helper2, s2)"
    and k: "(case verdict of
             Some status \<Rightarrow> Some (Returns (status, helper2) s2)
           | None \<Rightarrow> read_loop rd read_request_finalizer DEFAULT_BUFFER_SIZE len' helper2 s2 15) = Some r"
    by (auto simp: read_request_def read_from_request_socket_def bind_eq_Some_conv Let_def
          h_def[symmetric])
  note f = try_to_finalize_request[OF t]
  show ?thesis
  proof (cases verdict)
    case None
    then have "read_loop rd read_request_finalizer DEFAULT_BUFFER_SIZE len' helper2 s2 15 = Some r"
      using k by simp
    from read_loop_request[OF this] show ?thesis using f nh Ptr by auto
  next
    case (Some status)
    then show ?thesis using k f by auto
  qed
qed

lemma read_loop_bad_request_errno:
  assumes "read_loop rd read_request_finalizer buffer_size total_read helper s n =
             Some (Returns (HTTP_BAD_REQUEST, helper') s')"
  shows "0 < reads_done s' \<and>
         (\<exists>e. rd (reads_done s' - 1) = ReadError e \<and> e \<noteq> EAGAIN \<and> e \<noteq> EINTR)"
  using assms
proof (induction n arbitrary: total_read helper s)
  case 0
  then show ?case by simp
next
  case (Suc n)
  let ?s0 = "s\<lparr>reads_done := Suc (reads_done s)\<rparr>"
  show ?case
  proof (cases "rd (reads_done s)")
    case (ReadError e)
    show ?thesis
    proof (cases "e = EAGAIN \<or> e = EINTR")
      case True
      then have "read_loop rd read_request_finalizer buffer_size total_read helper
                   (emit Yielded (set_conn_flag CONN_MUST_READ ?s0)) n =
                 Some (Returns (HTTP_BAD_REQUEST, helper') s')"
        using Suc.prems ReadError by (simp add: Let_def)
      from Suc.IH[OF this] show ?thesis .
    next
      case False
      then have "s' = ?s0" using Suc.prems ReadError by (auto simp: Let_def split: if_splits)
      then show ?thesis using ReadError False by simp
    qed
  next
    case (ReadBytes offered)
    let ?got = "take (buffer_size - total_read) offered"
    show ?thesis
    proof (cases "?got = []")
      case True
      then show ?thesis using Suc.prems ReadBytes by (auto simp: Let_def)
    next
      case False
      have step: "do {
                   b \<leftarrow> deref (val (buffer helper));
                   m' \<leftarrow> write_bytes (memory ?s0) (b + total_read) ?got;
                   (verdict, helper2, s2) \<leftarrow>
                     try_to_finalize read_request_finalizer buffer_size (total_read + length ?got)
                       (helper\<lparr>buffer := (buffer helper)\<lparr>len := total_read + length ?got\<rparr>\<rparr>)
                       (?s0\<lparr>memory := m'\<rparr>);
                   (case verdict of
                      Some status \<Rightarrow> Some (Returns (status, helper2) s2)
                    | None \<Rightarrow>
                        read_loop rd read_request_finalizer buffer_size (total_read + length ?got)
                          helper2 s2 n)
                 } = Some (Returns (HTTP_BAD_REQUEST, helper') s')"
        using Suc.prems ReadBytes False by (simp add: Let_def cong: option.case_cong)
      then obtain m' verdict helper2 s2 where
        t: "try_to_finalize read_request_finalizer buffer_size (total_read + length ?got)
              (helper\<lparr>buffer := (buffer helper)\<lparr>len := total_read + length ?got\<rparr>\<rparr>)
              (?s0\<lparr>memory := m'\<rparr>) = Some (verdict, helper2, s2)"
        and k: "(case verdict of
                      Some status \<Rightarrow> Some (Returns (status, helper2) s2)
                    | None \<Rightarrow>
                        read_loop rd read_request_finalizer buffer_size (total_read + length ?got)
                          helper2 s2 n) = Some (Returns (HTTP_BAD_REQUEST, helper') s')"
        by (auto simp: bind_eq_Some_conv)
      note f = try_to_finalize_request[OF t]
      show ?thesis
      proof (cases verdict)
        case None
        then have "read_loop rd read_request_finalizer buffer_size (total_read + length ?got)
                          helper2 s2 n = Some (Returns (HTTP_BAD_REQUEST, helper') s')"
          using k by simp
        from Suc.IH[OF this] show ?thesis .
      next
        case (Some status)
        then show ?thesis using k f by auto
      qed
    qed
  qed
qed

lemma read_request_bad_request_errno:
  assumes "read_request rd (init_helper buf nr) s = Some (Returns (HTTP_BAD_REQUEST, helper) s1)"
  shows "0 < reads_done s1 \<and>
         (\<exists>e. rd (reads_done s1 - 1) = ReadError e \<and> e \<noteq> EAGAIN \<and> e \<noteq> EINTR)"
proof (cases nr)
  case NULL
  then have "read_loop rd read_request_finalizer DEFAULT_BUFFER_SIZE 0 (init_helper buf nr) s 16 =
               Some (Returns (HTTP_BAD_REQUEST, helper) s1)"
    using assms by (simp add: read_request_def read_from_request_socket_def init_helper_def)
  then show ?thesis by (rule read_loop_bad_request_errno)
next
  case (Ptr p)
  define h where "h = init_helper buf nr"
  have nh: "next_request h = Ptr p" "buffer h = buf" by (simp_all add: h_def init_helper_def Ptr)
  from assms nh obtain len' m' verdict helper2 s2 where
    t: "try_to_finalize read_request_finalizer DEFAULT_BUFFER_SIZE len'
          (h\<lparr>buffer := buf\<lparr>len := len'\<rparr>\<rparr>) (s\<lparr>memory := m'\<rparr>) = Some (verdict, helper2, s2)"
    and k: "(case verdict of
             Some status \<Rightarrow> Some (Returns (status, helper2) s2)
           | None \<Rightarrow> read_loop rd read_request_finalizer DEFAULT_BUFFER_SIZE len' helper2 s2 15) =
            Some (Returns (HTTP_BAD_REQUEST, helper) s1)"
    by (auto simp: read_request_def read_from_request_socket_def bind_eq_Some_conv Let_def
          h_def[symmetric])
  note f = try_to_finalize_request[OF t]
  show ?thesis
  proof (cases verdict)
    case None
    then have "read_loop rd read_request_finalizer DEFAULT_BUFFER_SIZE len' helper2 s2 15 =
                 Some (Returns (HTTP_BAD_REQUEST, helper) s1)"
      using k by simp
    then show ?thesis by (rule read_loop_bad_request_errno)
  next
    case (Some status)
    then show ?thesis using k f by auto
  qed
qed

text \<open>
  C9, amended.  When the read stage fails with \<^verbatim>\<open>HTTP_BAD_REQUEST\<close> and the driver was given a
  tail pointer, the driver sends no response and returns that pointer; no byte of the tail is
  resident then (the buffer length is 0), and the last call of \<^verbatim>\<open>read\<close> failed with an error
  other than \<^verbatim>\<open>EAGAIN\<close> and \<^verbatim>\<open>EINTR\<close>.  When the request was read and
  \<^verbatim>\<open>parse_http_request\<close> fails with \<^verbatim>\<open>HTTP_BAD_REQUEST\<close>, the driver sends the default response
  for that status and then returns \<^verbatim>\<open>helper.next_request\<close>, whether a tail is resident or not.
\<close>

theorem lwan_process_request_bad_request:
  assumes "read_request (ext_sock ext) (init_helper buf nr) s = Some (Returns (status, helper) s1)"
  shows "(status = HTTP_BAD_REQUEST \<and> nr \<noteq> NULL \<longrightarrow>
            lwan_process_request ext buf nr s = Some (Returns (nr, helper) s1) \<and>
            responses (trace s1) = responses (trace s) \<and> len (buffer helper) = 0 \<and>
            0 < reads_done s1 \<and>
            (\<exists>e. ext_sock ext (reads_done s1 - 1) = ReadError e \<and> e \<noteq> EAGAIN \<and> e \<noteq> EINTR)) \<and>
         (status = HTTP_OK \<and>
          parse_http_request (ext_parse_proxy_protocol ext) (ext_parse_long ext) (memory s1) (req s1) helper =
            Some (HTTP_BAD_REQUEST, m2, request2, helper2) \<longrightarrow>
            lwan_process_request ext buf nr s =
              Some (Returns (next_request helper2, helper2)
                      (emit (DefaultResponse HTTP_BAD_REQUEST) (s1\<lparr>memory := m2, req := request2\<rparr>))) \<and>
            responses (trace (emit (DefaultResponse HTTP_BAD_REQUEST) (s1\<lparr>memory := m2, req := request2\<rparr>))) =
              responses (trace s) @ [DefaultResponse HTTP_BAD_REQUEST])"
proof -
  note r = read_request_responses[OF assms]
  have base: "lwan_process_request ext buf nr s = Some (Returns (nr, helper) s1) \<and>
            responses (trace s1) = responses (trace s) \<and> len (buffer helper) = 0"
    if "status = HTTP_BAD_REQUEST" "nr \<noteq> NULL"
    using that r assms by (simp add: lwan_process_request_def)
  have err: "0 < reads_done s1 \<and>
            (\<exists>e. ext_sock ext (reads_done s1 - 1) = ReadError e \<and> e \<noteq> EAGAIN \<and> e \<noteq> EINTR)"
    if "status = HTTP_BAD_REQUEST"
    using read_request_bad_request_errno[of "ext_sock ext" buf nr s helper s1] assms that by simp
  have one: "lwan_process_request ext buf nr s = Some (Returns (nr, helper) s1) \<and>
            responses (trace s1) = responses (trace s) \<and> len (buffer helper) = 0 \<and>
            0 < reads_done s1 \<and>
            (\<exists>e. ext_sock ext (reads_done s1 - 1) = ReadError e \<and> e \<noteq> EAGAIN \<and> e \<noteq> EINTR)"
    if "status = HTTP_BAD_REQUEST" "nr \<noteq> NULL"
    using base[OF that] err[OF that(1)] by blast
  have two: "lwan_process_request ext buf nr s =
              Some (Returns (next_request helper2, helper2)
                      (emit (DefaultResponse HTTP_BAD_REQUEST) (s1\<lparr>memory := m2, req := request2\<rparr>))) \<and>
            responses (trace (emit (DefaultResponse HTTP_BAD_REQUEST) (s1\<lparr>memory := m2, req := request2\<rparr>))) =
              responses (trace s) @ [DefaultResponse HTTP_BAD_REQUEST]"
    if "status = HTTP_OK"
       "parse_http_request (ext_parse_proxy_protocol ext) (ext_parse_long ext) (memory s1) (req s1) helper =
            Some (HTTP_BAD_REQUEST, m2, request2, helper2)"
    using that r assms by (simp add: lwan_process_request_def)
  show ?thesis using one two by blast
qed


theorem lwan_process_request_bad_request_witness:
  "read_request (ext_sock (ex_externals [])) (init_helper \<lparr>val = Ptr 0, len = 39\<rparr> (Ptr 39)) (ex_fresh 4097) =
     Some (Returns (HTTP_BAD_REQUEST, ex_tail_helper) ex_tail_state) \<and>
   lwan_process_request (ex_externals []) \<lparr>val = Ptr 0, len = 39\<rparr> (Ptr 39) (ex_fresh 4097) =
     Some (Returns (Ptr 39, ex_tail_helper) ex_tail_state) \<and>
   responses (trace ex_tail_state) = responses (trace (ex_fresh 4097)) \<and>
   len (buffer ex_tail_helper) = 0 \<and>
   reads_done ex_tail_state = 1 \<and> ext_sock (ex_externals []) 0 = ReadError EOTHER \<and>
   read_request (ext_sock (ex_externals [ReadBytes ex_pipelined_wire]))
       (init_helper \<lparr>val = Ptr 0, len = 0\<rparr> NULL) (ex_fresh 4097) =
     Some (Returns (HTTP_OK, ex_read_helper) ex_read_state) \<and>
   parse_http_request (ext_parse_proxy_protocol (ex_externals [ReadBytes ex_pipelined_wire]))
       (ext_parse_long (ex_externals [ReadBytes ex_pipelined_wire]))
       (memory ex_read_state) (req ex_read_state) ex_read_helper =
     Some (HTTP_BAD_REQUEST, ex_parsed_memory, ex_parsed_request, ex_parsed_helper) \<and>
   lwan_process_request (ex_externals [ReadBytes ex_pipelined_wire]) \<lparr>val = Ptr 0, len = 0\<rparr> NULL
       (ex_fresh 4097) =
     Some (Returns (next_request ex_parsed_helper, ex_parsed_helper)
             (emit (DefaultResponse HTTP_BAD_REQUEST)
                (ex_read_state\<lparr>memory := ex_parsed_memory, req := ex_parsed_request\<rparr>))) \<and>
   responses (trace (emit (DefaultResponse HTTP_BAD_REQUEST)
                (ex_read_state\<lparr>memory := ex_parsed_memory, req := ex_parsed_request\<rparr>))) =
     responses (trace (ex_fresh 4097)) @ [DefaultResponse HTTP_BAD_REQUEST]"
proof -
  have h1: "read_request (ext_sock (ex_externals [])) (init_helper \<lparr>val = Ptr 0, len = 39\<rparr> (Ptr 39))
              (ex_fresh 4097) =
            Some (Returns (HTTP_BAD_REQUEST, ex_tail_helper) ex_tail_state)"
    by code_simp
  have h2: "Ptr 39 \<noteq> NULL" by simp
  have e1: "reads_done ex_tail_state = 1" by (simp add: ex_tail_state_def)
  have e2: "ext_sock (ex_externals []) 0 = ReadError EOTHER"
    by (simp add: ex_externals_def ex_socket_def)
  have h3: "read_request (ext_sock (ex_externals [ReadBytes ex_pipelined_wire]))
              (init_helper \<lparr>val = Ptr 0, len = 0\<rparr> NULL) (ex_fresh 4097) =
            Some (Returns (HTTP_OK, ex_read_helper) ex_read_state)"
    by code_simp
  have h4: "parse_http_request (ext_parse_proxy_protocol (ex_externals [ReadBytes ex_pipelined_wire]))
              (ext_parse_long (ex_externals [ReadBytes ex_pipelined_wire]))
              (memory ex_read_state) (req ex_read_state) ex_read_helper =
            Some (HTTP_BAD_REQUEST, ex_parsed_memory, ex_parsed_request, ex_parsed_helper)"
    by code_simp
  show ?thesis
    using lwan_process_request_bad_request[OF h1]
      lwan_process_request_bad_request[OF h3, where ?m2.0 = ex_parsed_memory
        and ?request2.0 = ex_parsed_request and ?helper2.0 = ex_parsed_helper]
      h1 h2 h3 h4 e1 e2
    by blast
qed

text \<open>
  C9 as stated fails: \<^verbatim>\<open>GET /%00 HTTP/1.1\<close> followed by a second request is read, the header
  parser records the tail at offset 21, decoding the URL fails, and the client is sent the
  default response 400 before the tail pointer is returned.
\<close>

theorem lwan_process_request_parse_failure_counterexample:
  "(case lwan_process_request (ex_externals [ReadBytes ex_pipelined_wire]) \<lparr>val = Ptr 0, len = 0\<rparr> NULL
           (ex_fresh 4097) of
      Some (Returns (p, h) s') \<Rightarrow>
        p = Ptr 21 \<and> next_request h = Ptr 21 \<and>
        trace s' = [DefaultResponse HTTP_BAD_REQUEST] \<and> status_code HTTP_BAD_REQUEST = 400
    | _ \<Rightarrow> False)"
  by code_simp

end
